theory Spec2Isabelle
  imports Complex_Main "HOL-Library.Word" "HOL-Library.Multiset" "HOL-Library.Monad_Syntax"
begin

unbundle bit_operations_syntax

section \<open>Numbers and the 32-bit bitwise operators\<close>

text \<open>
  The utility library works on JavaScript numbers. The embedding covers the numbers that
  hold an integer, as \<^typ>\<open>int\<close>: addition, subtraction, multiplication, comparison and
  \<open>Math.abs\<close> are then the integer operations, as long as every value stays within the
  range in which a double is exact (magnitude at most \<open>2 ^ 53\<close>).

  The bitwise operators are different: they first convert each operand to a signed 32-bit
  integer (\<open>ToInt32\<close>: reduction modulo \<open>2 ^ 32\<close> into \<open>[- 2 ^ 31, 2 ^ 31)\<close>), and their
  result is such an integer again. A shift count is taken modulo 32.
\<close>

definition toInt32 :: "int \<Rightarrow> int" where
  "toInt32 x = signed_take_bit 31 x"

definition js_or :: "int \<Rightarrow> int \<Rightarrow> int" where
  "js_or x y = toInt32 (toInt32 x OR toInt32 y)"

definition js_and :: "int \<Rightarrow> int \<Rightarrow> int" where
  "js_and x y = toInt32 (toInt32 x AND toInt32 y)"

definition js_shr :: "int \<Rightarrow> nat \<Rightarrow> int" where
  "js_shr x n = drop_bit (n mod 32) (toInt32 x)"

definition js_shl :: "int \<Rightarrow> nat \<Rightarrow> int" where
  "js_shl x n = toInt32 (push_bit (n mod 32) (toInt32 x))"

text \<open>
  Outside that range a sum is rounded. A number of magnitude \<open>2 ^ 53\<close> or more is a
  multiple of a power of two: it has a significand of 53 bits, and \<open>excess_bits\<close> counts
  the bits of an integer beyond them. \<open>x + y\<close> is the number nearest to the exact sum, and
  of two nearest numbers the one with the even significand (\<open>round_double\<close>). Both
  operands are numbers, so they are integers that a number holds exactly; the sums below
  add 1 to such a number, which never exceeds the largest number.
\<close>

function excess_bits :: "int \<Rightarrow> nat" where
  "excess_bits m = (if m < 2 ^ 53 then 0 else Suc (excess_bits (m div 2)))"
  by pat_completeness auto

termination
  by (relation "measure nat") auto

definition round_double :: "int \<Rightarrow> int" where
  "round_double x =
     (let m = \<bar>x\<bar>;
          e = excess_bits m;
          q = m div 2 ^ e;
          r = m mod 2 ^ e
      in if 2 * r < 2 ^ e \<or> (2 * r = 2 ^ e \<and> even q)
         then sgn x * (q * 2 ^ e)
         else sgn x * ((q + 1) * 2 ^ e))"

definition js_add :: "int \<Rightarrow> int \<Rightarrow> int" where
  "js_add x y = round_double (x + y)"

text \<open>
  The result of a division \<open>x / y\<close> of two integer-valued numbers: a fraction, or one of the
  special values that a zero divisor gives.
\<close>

datatype jsnum = Finite rat | PosInfinity | NegInfinity | NaN

definition js_div :: "int \<Rightarrow> int \<Rightarrow> jsnum" where
  "js_div x y =
     (if y = 0 then (if x = 0 then NaN else if 0 < x then PosInfinity else NegInfinity)
      else Finite (of_int x / of_int y))"

section \<open>The number helpers: gcd and lcm\<close>

text \<open>
  \<open>gcd\<close> is the binary algorithm, written with three \<open>while\<close> loops. None of them has a
  bound that holds for every input, so each loop is a partial function into
  \<^typ>\<open>'a option\<close>: \<open>None\<close> is the loop that never ends.

  \<^item> \<open>gcd_common_twos\<close>: \<open>while (((a | b) & 1) === 0) { a >>= 1; b >>= 1; shift++; }\<close>
  \<^item> \<open>gcd_strip_twos\<close>: \<open>while ((a & 1) === 0) a >>= 1;\<close> (the same loop is run on \<open>b\<close>
    inside the third loop)
  \<^item> \<open>gcd_subtract\<close>: \<open>while (b) { ...; if (a > b) [a, b] = [b, a]; b -= a; }\<close>
\<close>

partial_function (option) gcd_common_twos ::
  "int \<Rightarrow> int \<Rightarrow> nat \<Rightarrow> (int \<times> int \<times> nat) option" where
  "gcd_common_twos a b shift =
     (if js_and (js_or a b) 1 = 0
      then gcd_common_twos (js_shr a 1) (js_shr b 1) (shift + 1)
      else Some (a, b, shift))"

partial_function (option) gcd_strip_twos :: "int \<Rightarrow> int option" where
  "gcd_strip_twos a =
     (if js_and a 1 = 0 then gcd_strip_twos (js_shr a 1) else Some a)"

partial_function (option) gcd_subtract :: "int \<Rightarrow> int \<Rightarrow> int option" where
  "gcd_subtract a b =
     (if b \<noteq> 0
      then do {
        b1 \<leftarrow> gcd_strip_twos b;
        let (a2, b2) = (if a > b1 then (b1, a) else (a, b1));
        gcd_subtract a2 (b2 - a2)
      }
      else Some a)"

declare gcd_common_twos.simps [code]
declare gcd_strip_twos.simps [code]
declare gcd_subtract.simps [code]

definition gcd_ts :: "int \<Rightarrow> int \<Rightarrow> int option" where
  "gcd_ts a b = do {
     (a1, b1, shift) \<leftarrow> gcd_common_twos \<bar>a\<bar> \<bar>b\<bar> 0;
     a2 \<leftarrow> gcd_strip_twos a1;
     a3 \<leftarrow> gcd_subtract a2 b1;
     Some (js_shl a3 shift)
   }"

text \<open>\<open>lcm(a, b) = Math.abs(a * b) / gcd(a, b)\<close>; it returns when \<open>gcd\<close> does.\<close>

definition lcm_ts :: "int \<Rightarrow> int \<Rightarrow> jsnum option" where
  "lcm_ts a b = map_option (\<lambda>g. js_div \<bar>a * b\<bar> g) (gcd_ts a b)"

section \<open>Errors\<close>

text \<open>The exceptions the modelled code can raise, as values.\<close>

datatype error = TypeError | RangeError

section \<open>array.ts: unique\<close>

text \<open>
  A \<open>Set\<close> keeps its elements in insertion order, and adding an element it already has
  changes nothing: it is a list without duplicates. \<open>new Set(arr)\<close> adds the elements of
  \<open>arr\<close> from left to right, and \<open>[...s]\<close> lists the set in insertion order.
\<close>

definition set_add :: "'a list \<Rightarrow> 'a \<Rightarrow> 'a list" where
  "set_add s x = (if x \<in> set s then s else s @ [x])"

definition new_Set :: "'a list \<Rightarrow> 'a list" where
  "new_Set arr = fold (\<lambda>x s. set_add s x) arr []"

text \<open>
  The second branch: the loop over \<open>arr\<close> with the \<open>Map\<close> \<open>seen\<close> and the array \<open>result\<close>.
\<close>

fun unique_loop :: "'a list \<Rightarrow> ('a \<rightharpoonup> bool) \<Rightarrow> 'a list \<Rightarrow> 'a list" where
  "unique_loop [] seen result = result"
| "unique_loop (item # rest) seen result =
     (if seen item = None
      then unique_loop rest (seen(item \<mapsto> True)) (result @ [item])
      else unique_loop rest seen result)"

definition unique_small :: "'a list \<Rightarrow> 'a list" where
  "unique_small arr = new_Set arr"

definition unique_large :: "'a list \<Rightarrow> 'a list" where
  "unique_large arr = unique_loop arr Map.empty []"

definition unique :: "'a list \<Rightarrow> 'a list" where
  "unique arr = (if length arr < 1000 then unique_small arr else unique_large arr)"

text \<open>
  For the statement of the order of the result: the position of the first occurrence of
  an element, and the list of first occurrences written as a recursion.
\<close>

definition first_index :: "'a list \<Rightarrow> 'a \<Rightarrow> nat" where
  "first_index xs x = length (takeWhile (\<lambda>y. y \<noteq> x) xs)"

fun first_occurrences :: "'a list \<Rightarrow> 'a list" where
  "first_occurrences [] = []"
| "first_occurrences (x # xs) = x # filter (\<lambda>y. y \<noteq> x) (first_occurrences xs)"

section \<open>array.ts: windows\<close>

text \<open>
  \<open>array.slice(start, end)\<close> with integer arguments: a negative index counts from the end,
  and both indices are clamped to the array.
\<close>

definition js_slice :: "'a list \<Rightarrow> int \<Rightarrow> int \<Rightarrow> 'a list" where
  "js_slice xs start fin =
     (let n = int (length xs);
          k = (if start < 0 then max (n + start) 0 else min start n);
          e = (if fin < 0 then max (n + fin) 0 else min fin n)
      in take (nat (e - k)) (drop (nat k) xs))"

text \<open>The loop of \<open>windows\<close>; \<open>sz\<close> is the parameter \<open>size\<close>.\<close>

function windows_loop :: "'a list \<Rightarrow> int \<Rightarrow> int \<Rightarrow> 'a list list \<Rightarrow> 'a list list" where
  "windows_loop array sz i result =
     (if i \<le> int (length array) - sz
      then windows_loop array sz (i + 1) (result @ [js_slice array i (i + sz)])
      else result)"
  by pat_completeness auto
termination
  by (relation "measure (\<lambda>(array, sz, i, result). nat (int (length array) - sz - i + 1))") auto

definition windows :: "'a list \<Rightarrow> int \<Rightarrow> 'a list list" where
  "windows array sz =
     (if sz > int (length array) then [] else windows_loop array sz 0 [])"

section \<open>array.ts: transpose\<close>

text \<open>
  \<open>matrix[0].map((_, colIndex) => matrix.map((row) => row[colIndex]))\<close>. On an empty matrix
  \<open>matrix[0]\<close> is \<open>undefined\<close> and the call of \<open>map\<close> on it throws a \<open>TypeError\<close>. A row
  too short for a column gives \<open>undefined\<close> there, which is \<open>None\<close> in the cells of the
  result.
\<close>

definition transpose_ts :: "'a list list \<Rightarrow> error + 'a option list list" where
  "transpose_ts matrix =
     (case matrix of
        [] \<Rightarrow> Inl TypeError
      | row0 # _ \<Rightarrow>
          Inr (map (\<lambda>colIndex.
                 map (\<lambda>row. if colIndex < length row then Some (row ! colIndex) else None) matrix)
               [0..<length row0]))"

section \<open>array.ts: create2DArray\<close>

text \<open>
  The values a cell can hold: a number, \<open>undefined\<close> (also what an empty slot of an array
  reads as), or a value of another type. The conversion of such a value to a number
  (\<open>ToNumber\<close>) is a parameter \<open>tn\<close> of the operations that need it; it fails on some values
  (a symbol, a big integer).
\<close>

datatype 'a jsval = Number jsnum | Undefined | Other 'a

definition is_small_uint :: "'a jsval \<Rightarrow> bool" where
  "is_small_uint d =
     (case d of
        Number (Finite r) \<Rightarrow> of_int \<lfloor>r\<rfloor> = r \<and> 0 \<le> r \<and> r < 256
      | _ \<Rightarrow> False)"

text \<open>
  Storing a number in an element of a \<open>Uint8Array\<close>: it is truncated towards zero and
  reduced modulo 256; a value that is not finite is stored as 0.
\<close>

definition toUint8 :: "jsnum \<Rightarrow> 8 word" where
  "toUint8 n =
     (case n of
        Finite r \<Rightarrow> word_of_int (if 0 \<le> r then \<lfloor>r\<rfloor> else \<lceil>r\<rceil>)
      | _ \<Rightarrow> 0)"


text \<open>A row of the grid is a \<open>Uint8Array\<close> or a plain array.\<close>

datatype 'a row = Uint8Row "8 word list" | PlainRow "'a jsval list"




text \<open>
  The lengths the constructors accept. \<open>new Array(n)\<close> throws a \<open>RangeError\<close> unless \<open>n\<close>
  is an array length, an integer from 0 to \<open>2 ^ 32 - 1\<close>. \<open>new Uint8Array(n)\<close> throws a
  \<open>RangeError\<close> for a negative length and for a length above \<open>2 ^ 53 - 1\<close>; whether a
  typed array of an accepted length can be allocated depends on the memory of the
  runtime, which is not modelled. \<open>rows\<close> and \<open>cols\<close> are integers.
\<close>

definition array_length_ok :: "int \<Rightarrow> bool" where
  "array_length_ok n = (0 \<le> n \<and> n < 2 ^ 32)"

definition typed_array_length_ok :: "int \<Rightarrow> bool" where
  "typed_array_length_ok n = (0 \<le> n \<and> n < 2 ^ 53)"

text \<open>
  \<open>create2DArray\<close>. In the first branch \<open>new Array(rows)\<close> and the template
  \<open>new Uint8Array(cols)\<close> are built before the loop, so a refused \<open>rows\<close> or \<open>cols\<close> throws
  there even when there is no row; in the second branch \<open>new Array(rows)\<close> is built before
  the loop and \<open>new Array(cols)\<close> is only reached inside it, that is when \<open>rows\<close> is not 0.
\<close>

definition uint8_fill :: "8 word list \<Rightarrow> jsnum \<Rightarrow> 8 word list" where
  "uint8_fill buf n = map (\<lambda>_. toUint8 n) buf"

definition uint8_set :: "8 word list \<Rightarrow> 8 word list \<Rightarrow> 8 word list" where
  "uint8_set target source = source @ drop (length source) target"

definition create2DArray :: "int \<Rightarrow> int \<Rightarrow> 'a jsval \<Rightarrow> error + 'a row list" where
  "create2DArray rows cols defaultValue =
     (if is_small_uint defaultValue
      then
        (if array_length_ok rows \<and> typed_array_length_ok cols
         then
           (let uint8Array =
                  uint8_fill (replicate (nat cols) 0)
                    (case defaultValue of Number n \<Rightarrow> n | _ \<Rightarrow> NaN)
            in Inr (map (\<lambda>i. Uint8Row (uint8_set (replicate (nat cols) 0) uint8Array))
                      [0..<nat rows]))
         else Inl RangeError)
      else
        (if array_length_ok rows \<and> (rows = 0 \<or> array_length_ok cols)
         then Inr (map (\<lambda>i. PlainRow (replicate (nat cols) defaultValue)) [0..<nat rows])
         else Inl RangeError))"

section \<open>2024/day8/test.ts: the test harness of a day\<close>

text \<open>
  A day's tests: for each part an optional list of sample cases (\<open>tests.part1?.length\<close>
  allows the field to be absent). An answer is a number or a string.
\<close>

datatype answer = AnswerNumber int | AnswerString string

record test_case =
  input :: string
  expected :: answer

record day_tests =
  part1 :: "test_case list option"
  part2 :: "test_case list option"

text \<open>The sample of day 8: one case for each part.\<close>

definition day8_input :: string where
  "day8_input =
     ''............\<newline>........0...\<newline>.....0......\<newline>.......0....\<newline>....0.......\<newline>......A.....\<newline>'' @
     ''............\<newline>............\<newline>........A...\<newline>.........A..\<newline>............\<newline>............''"

definition day8_tests :: day_tests where
  "day8_tests =
     \<lparr> part1 = Some [\<lparr> input = day8_input, expected = AnswerNumber 14 \<rparr>],
       part2 = Some [\<lparr> input = day8_input, expected = AnswerNumber 34 \<rparr>] \<rparr>"

text \<open>
  The message of a skipped part: a warning sign (U+26A0 U+FE0F, here in UTF-8), the text
  and a line feed.
\<close>

definition no_tests_message :: "nat \<Rightarrow> string" where
  "no_tests_message part =
     [char_of (0xE2 :: nat), char_of (0x9A :: nat), char_of (0xA0 :: nat),
      char_of (0xEF :: nat), char_of (0xB8 :: nat), char_of (0x8F :: nat)]
     @ '' No tests defined for Part '' @ (if part = 1 then ''1'' else ''2'') @ ''\<newline>''"

text \<open>
  \<open>runPart1Tests\<close> and \<open>runPart2Tests\<close>. What they use and \<open>test.ts\<close> does not define is a
  parameter:
  \<^item> \<open>log_fn\<close>, the binding of the logging function \<open>log\<close>. \<open>test.ts\<close> calls it without
    importing or declaring it, so it is found in the global scope or not at all: \<open>None\<close>
    is the scope without it, where the call throws a \<open>ReferenceError\<close>. No runtime defines
    a global \<open>log\<close>, so \<open>None\<close> is the scope the module runs in as it is written; \<open>Some\<close> is
    the module with the missing import added. A logging function changes the console
    \<open>'w\<close>.
  \<^item> \<open>tests\<close>, the constant of the module, so that a part without cases can be stated;
  \<^item> \<open>runTestPart\<close> of \<open>test_utils.ts\<close>, which runs the cases of a part against the
    solution \<open>'s\<close>: it returns a truth value or fails, and writes to the console;
  \<^item> the two parts of the solution.
  The functions are \<open>async\<close>; each body runs in one piece, so the promise it returns is
  modelled by its outcome.
\<close>

datatype harness_error = ReferenceError | TestRunFailed

definition runPart1Tests ::
  "(string \<Rightarrow> 'w \<Rightarrow> 'w) option \<Rightarrow> ('s \<Rightarrow> test_case list \<Rightarrow> nat \<Rightarrow> 'w \<Rightarrow> (harness_error + bool) \<times> 'w)
   \<Rightarrow> 's \<Rightarrow> day_tests \<Rightarrow> 'w \<Rightarrow> (harness_error + bool) \<times> 'w" where
  "runPart1Tests log_fn runTestPart solution_part1 tests w =
     (if (case part1 tests of None \<Rightarrow> True | Some cases \<Rightarrow> length cases = 0)
      then (case log_fn of
              None \<Rightarrow> (Inl ReferenceError, w)
            | Some lg \<Rightarrow> (Inr True, lg (no_tests_message 1) w))
      else runTestPart solution_part1 (the (part1 tests)) 1 w)"

definition runPart2Tests ::
  "(string \<Rightarrow> 'w \<Rightarrow> 'w) option \<Rightarrow> ('s \<Rightarrow> test_case list \<Rightarrow> nat \<Rightarrow> 'w \<Rightarrow> (harness_error + bool) \<times> 'w)
   \<Rightarrow> 's \<Rightarrow> day_tests \<Rightarrow> 'w \<Rightarrow> (harness_error + bool) \<times> 'w" where
  "runPart2Tests log_fn runTestPart solution_part2 tests w =
     (if (case part2 tests of None \<Rightarrow> True | Some cases \<Rightarrow> length cases = 0)
      then (case log_fn of
              None \<Rightarrow> (Inl ReferenceError, w)
            | Some lg \<Rightarrow> (Inr True, lg (no_tests_message 2) w))
      else runTestPart solution_part2 (the (part2 tests)) 2 w)"

section \<open>ranges.ts: mergeRanges\<close>

text \<open>
  A range is a pair \<open>[start, end]\<close> of numbers that hold integers. \<open>mergeRanges\<close> sorts a
  copy of its argument by start (the sort of an array is stable, as \<^const>\<open>sort_key\<close> is),
  starts \<open>merged\<close> with the first range, and runs over the others: a range that begins at
  most one past the end of the last merged range extends that range, any other range is
  appended.

  Of the arithmetic of the function, the comparator \<open>a - b\<close> of the sort has the sign of
  the exact difference, and the comparison \<open>start <= ...\<close> and \<open>Math.max\<close> are exact.
  \<open>lastEnd + 1\<close> is a sum of numbers, and is rounded when \<open>lastEnd\<close> has a magnitude of
  \<open>2 ^ 53\<close> or more: it is \<^const>\<open>js_add\<close>.

  First the function on the values of the ranges, that is, what it returns.
\<close>

type_synonym range = "int \<times> int"

fun merge_loop :: "range list \<Rightarrow> range list \<Rightarrow> range list" where
  "merge_loop [] merged = merged"
| "merge_loop ((start, fin) # rest) merged =
     (let lastEnd = snd (last merged) in
      if start \<le> js_add lastEnd 1
      then merge_loop rest (merged[length merged - 1 := (fst (last merged), max lastEnd fin)])
      else merge_loop rest (merged @ [(start, fin)]))"

definition mergeRanges :: "range list \<Rightarrow> range list" where
  "mergeRanges ranges =
     (if length ranges = 0 then []
      else (let sorted_ranges = sort_key fst ranges
            in merge_loop (tl sorted_ranges) [hd sorted_ranges]))"

text \<open>
  The same function on a store of pair objects, for what it does to its argument. A pair
  is an object: the array \<open>ranges\<close> holds references to pairs, and so do \<open>sorted\<close> (a copy of
  the array, not of the pairs) and \<open>merged\<close>. The store is the list of all pairs, a
  reference is an index into it, and \<open>[start, end]\<close> allocates a new pair at its end.
  \<open>merged\<close> starts with the reference \<open>sorted[0]\<close>, so
  \<open>merged[merged.length - 1][1] = Math.max(lastEnd, end)\<close> can write into a pair of the
  argument. Every reference the function holds is one of its argument or one it has
  allocated, so it is an index of the store, and \<open>merged\<close> is never empty in the loop.
\<close>

type_synonym ref = nat
type_synonym store = "range list"

fun merge_loop_store :: "ref list \<Rightarrow> ref list \<Rightarrow> store \<Rightarrow> ref list \<times> store" where
  "merge_loop_store [] merged h = (merged, h)"
| "merge_loop_store (r # rest) merged h =
     (let (start, fin) = h ! r;
          l = last merged;
          lastEnd = snd (h ! l) in
      if start \<le> js_add lastEnd 1
      then merge_loop_store rest merged (h[l := (fst (h ! l), max lastEnd fin)])
      else merge_loop_store rest (merged @ [length h]) (h @ [(start, fin)]))"

definition mergeRanges_store :: "ref list \<Rightarrow> store \<Rightarrow> ref list \<times> store" where
  "mergeRanges_store ranges h =
     (if length ranges = 0 then ([], h)
      else (let sorted_ranges = sort_key (\<lambda>r. fst (h ! r)) ranges
            in merge_loop_store (tl sorted_ranges) [hd sorted_ranges] h))"

text \<open>
  For the statements: the integers a list of ranges covers, the lists in which every
  range is non-empty and begins more than one past the end of each range before it, and
  the lists of ranges whose bounds are safe integers (\<open>Number.isSafeInteger\<close>: magnitude at
  most \<open>2 ^ 53 - 1\<close>).
\<close>

definition points :: "range list \<Rightarrow> int set" where
  "points rs = (\<Union>r\<in>set rs. {fst r..snd r})"

definition well_formed :: "range list \<Rightarrow> bool" where
  "well_formed rs = list_all (\<lambda>r. fst r \<le> snd r) rs"

definition separated :: "range list \<Rightarrow> bool" where
  "separated rs = (well_formed rs \<and> sorted_wrt (\<lambda>p q. snd p + 1 < fst q) rs)"

definition touching :: "range \<Rightarrow> range \<Rightarrow> bool" where
  "touching p q = (fst p \<le> snd q + 1 \<and> fst q \<le> snd p + 1)"

definition safe_integer :: "int \<Rightarrow> bool" where
  "safe_integer x = (\<bar>x\<bar> < 2 ^ 53)"

definition safe_ranges :: "range list \<Rightarrow> bool" where
  "safe_ranges rs = list_all (\<lambda>r. safe_integer (fst r) \<and> safe_integer (snd r)) rs"

section \<open>The number helpers: getPermutations\<close>

text \<open>
  \<open>getPermutations\<close> swaps elements of its argument in place (Heap's algorithm), so the
  model returns the array as the call leaves it beside the result. The exchange
  \<open>temp = array[i]; array[i] = array[k]; array[k] = temp\<close>:
\<close>

definition swap_elems :: "'a list \<Rightarrow> nat \<Rightarrow> nat \<Rightarrow> 'a list" where
  "swap_elems array i k = (array[i := array ! k])[k := array ! i]"

text \<open>
  The \<open>while (i < len)\<close> loop, with the counters \<open>c\<close>. \<open>i % 2 && c[i]\<close> is \<open>c[i]\<close> for an odd
  \<open>i\<close> and 0 for an even one. The loop has no bound that is plain from its text, so it is
  a partial function; that it ends is part of what is proved about it. The call gives
  \<open>array\<close> and \<open>c\<close> the length \<open>len\<close> and the loop keeps it, and \<open>k \<le> i < len\<close> at every
  exchange, so no index is out of range.
\<close>

partial_function (option) heap_loop ::
  "nat \<Rightarrow> 'a list \<Rightarrow> nat list \<Rightarrow> nat \<Rightarrow> 'a list list \<Rightarrow> ('a list list \<times> 'a list) option" where
  "heap_loop len array c i result =
     (if i < len
      then
        (if c ! i < i
         then
           (let k = (if i mod 2 \<noteq> 0 then c ! i else 0);
                array' = swap_elems array i k
            in heap_loop len array' (c[i := c ! i + 1]) 0 (result @ [array']))
         else heap_loop len array (c[i := 0]) (i + 1) result)
      else Some (result, array))"

declare heap_loop.simps [code]

text \<open>
  \<open>getPermutations\<close>, \<open>getPermutationsLarger\<close> and the \<open>for\<close> loop of the latter, which calls
  \<open>getPermutations\<close> on the array without its element \<open>i\<close>. \<open>getPermutationsLarger\<close> does
  not write to its argument.
\<close>

function getPermutations :: "'a list \<Rightarrow> ('a list list \<times> 'a list) option"
  and getPermutationsLarger :: "'a list \<Rightarrow> 'a list list option"
  and larger_loop :: "'a list \<Rightarrow> nat \<Rightarrow> 'a list list \<Rightarrow> 'a list list option"
where
  "getPermutations array =
     (if length array \<le> 1 then Some ([array], array)
      else if length array > 8
      then map_option (\<lambda>result. (result, array)) (getPermutationsLarger array)
      else heap_loop (length array) array (replicate (length array) 0) 0 [array])"
| "getPermutationsLarger array =
     (if length array \<le> 1 then Some [array] else larger_loop array 0 [])"
| "larger_loop array i result =
     (if i < length array
      then
        (case getPermutations (take i array @ drop (i + 1) array) of
           None \<Rightarrow> None
         | Some (permutations, _) \<Rightarrow>
             larger_loop array (i + 1) (result @ map (\<lambda>permutation. array ! i # permutation) permutations))
      else Some result)"
  by pat_completeness auto
termination
  by (relation "measures
        [\<lambda>x. case x of Inl a \<Rightarrow> length a | Inr (Inl a) \<Rightarrow> length a | Inr (Inr (a, i, r)) \<Rightarrow> length a,
         \<lambda>x. case x of Inl a \<Rightarrow> 2 | Inr (Inl a) \<Rightarrow> 1 | Inr (Inr (a, i, r)) \<Rightarrow> 0,
         \<lambda>x. case x of Inl a \<Rightarrow> 0 | Inr (Inl a) \<Rightarrow> 0 | Inr (Inr (a, i, r)) \<Rightarrow> length a - i]")
     auto

text \<open>
  Heap's algorithm as a recursion, for the proofs: \<open>heap_rec m\<close> permutes the first \<open>m\<close>
  elements, and returns the arrays it produces after the one it starts from, and the
  array it ends with. Level \<open>m + 1\<close> runs level \<open>m\<close>, and then \<open>m\<close> times an exchange of
  element \<open>m\<close> followed by level \<open>m\<close>; \<open>heap_blocks m n\<close> is the last \<open>n\<close> of these rounds, and
  \<open>block_starts m n\<close> lists the arrays these rounds start from.
\<close>

fun heap_rec :: "nat \<Rightarrow> 'a list \<Rightarrow> 'a list list \<times> 'a list"
  and heap_blocks :: "nat \<Rightarrow> nat \<Rightarrow> 'a list \<Rightarrow> 'a list list \<times> 'a list"
where
  "heap_rec 0 A = ([], A)"
| "heap_rec (Suc m) A =
     (let (o1, A1) = heap_rec m A; (o2, A2) = heap_blocks m m A1 in (o1 @ o2, A2))"
| "heap_blocks m 0 A = ([], A)"
| "heap_blocks m (Suc n) A =
     (let A' = swap_elems A m (if m mod 2 \<noteq> 0 then m - Suc n else 0);
          (o1, A1) = heap_rec m A';
          (o2, A2) = heap_blocks m n A1
      in (A' # o1 @ o2, A2))"

fun block_starts :: "nat \<Rightarrow> nat \<Rightarrow> 'a list \<Rightarrow> 'a list list" where
  "block_starts m 0 A = []"
| "block_starts m (Suc n) A =
     (let A' = swap_elems A m (if m mod 2 \<noteq> 0 then m - Suc n else 0)
      in A' # block_starts m n (snd (heap_rec m A')))"

definition heap_all :: "nat \<Rightarrow> 'a list \<Rightarrow> 'a list list" where
  "heap_all m A = A # fst (heap_rec m A)"

definition heap_starts :: "nat \<Rightarrow> 'a list \<Rightarrow> 'a list list" where
  "heap_starts m A = A # block_starts m m (snd (heap_rec m A))"

section \<open>Properties of gcd\<close>

lemma js_bits_zero: "js_shr 0 n = 0" "js_and 0 x = 0" "js_or 0 0 = 0"
  by (simp_all add: js_shr_def js_and_def js_or_def toInt32_def)

text \<open>The first loop never ends when both numbers are zero: shifting leaves them zero.\<close>

lemma gcd_common_twos_not_zero:
  assumes "gcd_common_twos a b s = Some y"
  shows "\<not> (a = 0 \<and> b = 0)"
  by (rule gcd_common_twos.raw_induct [where P = "\<lambda>a b s y. \<not> (a = 0 \<and> b = 0)", OF _ assms])
     (fastforce simp: js_bits_zero split: if_splits)

lemma gcd_common_twos_zero: "gcd_common_twos 0 0 s = None"
  using gcd_common_twos_not_zero [of 0 0 s] by (cases "gcd_common_twos 0 0 s") auto

lemma gcd_common_twos_keeps_zero:
  assumes "gcd_common_twos a b s = Some y"
  shows "a = 0 \<longrightarrow> fst y = 0"
  by (rule gcd_common_twos.raw_induct [where P = "\<lambda>a b s y. a = 0 \<longrightarrow> fst y = 0", OF _ assms])
     (fastforce simp: js_bits_zero split: if_splits)

text \<open>The second loop never ends on zero, which has no lowest set bit to reach.\<close>

lemma gcd_strip_twos_not_zero:
  assumes "gcd_strip_twos a = Some y"
  shows "a \<noteq> 0"
  by (rule gcd_strip_twos.raw_induct [where P = "\<lambda>a y. a \<noteq> 0", OF _ assms])
     (fastforce simp: js_bits_zero split: if_splits)

lemma gcd_strip_twos_zero: "gcd_strip_twos 0 = None"
  using gcd_strip_twos_not_zero [of 0] by (cases "gcd_strip_twos 0") auto

lemma gcd_ts_zero_left: "gcd_ts 0 b = None"
proof (cases "gcd_common_twos 0 \<bar>b\<bar> 0")
  case None
  then show ?thesis by (simp add: gcd_ts_def)
next
  case (Some y)
  obtain a1 b1 sh where y: "y = (a1, b1, sh)" by (cases y)
  from gcd_common_twos_keeps_zero [OF Some] y have "a1 = 0" by simp
  with Some y show ?thesis by (simp add: gcd_ts_def gcd_strip_twos_zero)
qed

text \<open>
  Claim C1: \<open>gcd(a, b)\<close> terminates and returns the largest positive integer dividing both
  \<open>|a|\<close> and \<open>|b|\<close> for every pair of integers, with \<open>gcd(0, 0)\<close> returning the sentinel 0.

  The code has no guard for a zero argument. At \<open>gcd(0, 0)\<close> the first loop shifts two
  zeros for ever, so the call returns nothing, neither 0 nor any other value.
\<close>

theorem gcd_zero_zero_never_returns: "gcd_ts 0 0 = None"
  by (simp add: gcd_ts_def gcd_common_twos_zero)

text \<open>
  Claim C8: \<open>gcd(a, b)\<close> equals \<open>gcd(b, a)\<close> for all integers.

  With a zero first argument the second loop never ends, whatever the other argument is
  (\<open>gcd_ts_zero_left\<close>); with the zero in second place the call returns. So \<open>gcd(0, 5)\<close>
  does not return while \<open>gcd(5, 0)\<close> is 5.
\<close>

theorem gcd_not_commutative_at_zero: "gcd_ts 0 5 = None \<and> gcd_ts 5 0 = Some 5"
proof
  show "gcd_ts 0 5 = None" by (rule gcd_ts_zero_left)
  show "gcd_ts 5 0 = Some 5" by code_simp
qed

section \<open>gcd and lcm on 31-bit magnitudes\<close>

lemma toInt32_id: "- (2 ^ 31) \<le> x \<Longrightarrow> x < 2 ^ 31 \<Longrightarrow> toInt32 x = x"
  by (simp add: toInt32_def signed_take_bit_int_eq_self)

lemma js_and_1: "js_and x 1 = (if even x then 0 else 1)"
proof -
  have one: "toInt32 1 = 1" by (simp add: toInt32_id)
  have "toInt32 x AND 1 = (if even x then 0 else 1)"
    by (simp add: and_one_eq toInt32_def even_signed_take_bit_iff mod_2_eq_odd)
  then show ?thesis by (simp add: js_and_def one toInt32_id)
qed

lemma even_js_or: "even (js_or a b) = (even a \<and> even b)"
  by (simp add: js_or_def toInt32_def even_signed_take_bit_iff even_or_iff)

lemma js_shr_1: "0 \<le> x \<Longrightarrow> x < 2 ^ 31 \<Longrightarrow> js_shr x (Suc 0) = x div 2"
  by (simp add: js_shr_def toInt32_id drop_bit_eq_div)

lemma js_shl_small:
  assumes "0 \<le> x" and "x * 2 ^ k < 2 ^ 31" and "k < 32"
  shows "js_shl x k = x * 2 ^ k"
proof -
  have "x \<le> x * 2 ^ k" using assms(1) by (simp add: mult_le_cancel_left1)
  with assms have x: "toInt32 x = x" by (intro toInt32_id) simp_all
  have "0 \<le> x * 2 ^ k" using assms(1) by simp
  with assms(2) have "toInt32 (x * 2 ^ k) = x * 2 ^ k" by (intro toInt32_id) simp_all
  with x assms(3) show ?thesis by (simp add: js_shl_def push_bit_eq_mult)
qed

lemma gcd_common_twos_result:
  assumes "0 < a" and "a < 2 ^ 31" and "0 \<le> b" and "b < 2 ^ 31"
  shows "\<exists>k a' b'. gcd_common_twos a b s = Some (a', b', s + k)
           \<and> a = a' * 2 ^ k \<and> b = b' * 2 ^ k \<and> (odd a' \<or> odd b') \<and> 0 < a' \<and> 0 \<le> b'"
  using assms
proof (induction "nat a" arbitrary: a b s rule: less_induct)
  case less
  show ?case
  proof (cases "even a \<and> even b")
    case True
    then obtain a2 where "a = 2 * a2" by (auto elim: evenE)
    moreover from True obtain b2 where "b = 2 * b2" by (auto elim: evenE)
    ultimately have ab: "a = 2 * a2" "b = 2 * b2" by simp_all
    with less.prems have pos: "0 < a2" "a2 < 2 ^ 31" "0 \<le> b2" "b2 < 2 ^ 31" by simp_all
    have lt: "nat a2 < nat a" using ab pos by simp
    from less.hyps [OF lt pos, of "s + 1"]
    obtain k a' b' where r: "gcd_common_twos a2 b2 (s + 1) = Some (a', b', s + 1 + k)"
      "a2 = a' * 2 ^ k" "b2 = b' * 2 ^ k" "odd a' \<or> odd b'" "0 < a'" "0 \<le> b'" by blast
    have sh: "js_shr a 1 = a2" "js_shr b 1 = b2"
      using less.prems ab by (simp_all add: js_shr_1)
    have "gcd_common_twos a b s = gcd_common_twos (js_shr a 1) (js_shr b 1) (s + 1)"
      using True by (subst gcd_common_twos.simps) (simp add: js_and_1 even_js_or)
    then have "gcd_common_twos a b s = Some (a', b', s + Suc k)"
      unfolding sh using r(1) by simp
    moreover have "a = a' * 2 ^ Suc k" "b = b' * 2 ^ Suc k" using ab r(2,3) by simp_all
    ultimately show ?thesis using r(4,5,6) by blast
  next
    case False
    then have "gcd_common_twos a b s = Some (a, b, s + 0)"
      by (subst gcd_common_twos.simps) (auto simp: js_and_1 even_js_or)
    moreover have "a = a * 2 ^ 0" "b = b * 2 ^ 0" by simp_all
    ultimately show ?thesis using False less.prems by blast
  qed
qed

lemma gcd_strip_twos_result:
  assumes "0 < a" and "a < 2 ^ 31"
  shows "\<exists>j a'. gcd_strip_twos a = Some a' \<and> a = a' * 2 ^ j \<and> odd a' \<and> 0 < a'"
  using assms
proof (induction "nat a" arbitrary: a rule: less_induct)
  case less
  show ?case
  proof (cases "even a")
    case True
    then obtain a2 where a: "a = 2 * a2" by (auto elim: evenE)
    with less.prems have pos: "0 < a2" "a2 < 2 ^ 31" by simp_all
    have lt: "nat a2 < nat a" using a pos by simp
    from less.hyps [OF lt pos]
    obtain j a' where r: "gcd_strip_twos a2 = Some a'" "a2 = a' * 2 ^ j" "odd a'" "0 < a'" by blast
    have sh: "js_shr a 1 = a2" using less.prems a by (simp add: js_shr_1)
    have "gcd_strip_twos a = gcd_strip_twos (js_shr a 1)"
      using True by (subst gcd_strip_twos.simps) (simp add: js_and_1)
    then have "gcd_strip_twos a = Some a'" unfolding sh using r(1) by simp
    moreover have "a = a' * 2 ^ Suc j" using a r(2) by simp
    ultimately show ?thesis using r(3,4) by blast
  next
    case False
    then have "gcd_strip_twos a = Some a"
      by (subst gcd_strip_twos.simps) (simp add: js_and_1)
    moreover have "a = a * 2 ^ 0" by simp
    ultimately show ?thesis using False less.prems by blast
  qed
qed

lemma gcd_odd_twos:
  fixes a b :: int
  assumes "odd a"
  shows "gcd a (b * 2 ^ j) = gcd a b"
proof -
  from assms have "coprime a 2" by (metis coprime_commute coprime_left_2_iff_odd)
  then have "coprime a (2 ^ j)" by simp
  then show ?thesis by (rule gcd_mult_right_right_cancel)
qed

lemma gcd_subtract_result:
  assumes "odd a" and "0 < a" and "a < 2 ^ 31" and "0 \<le> b" and "b < 2 ^ 31"
  shows "gcd_subtract a b = Some (gcd a b)"
  using assms
proof (induction "nat (a + b)" arbitrary: a b rule: less_induct)
  case less
  show ?case
  proof (cases "b = 0")
    case True
    with less.prems show ?thesis by (subst gcd_subtract.simps) simp
  next
    case False
    with less.prems have bpos: "0 < b" by simp
    from gcd_strip_twos_result [OF bpos less.prems(5)]
    obtain j b1 where s: "gcd_strip_twos b = Some b1" "b = b1 * 2 ^ j" "odd b1" "0 < b1" by blast
    have b1le: "b1 \<le> b" using s(2,4) by (simp add: mult_le_cancel_left1)
    have g: "gcd a b = gcd a b1" using less.prems(1) s(2) by (simp add: gcd_odd_twos)
    show ?thesis
    proof (cases "a > b1")
      case True
      have step: "gcd_subtract a b = gcd_subtract b1 (a - b1)"
        using False s(1) True by (subst gcd_subtract.simps) simp
      have "nat (b1 + (a - b1)) < nat (a + b)" using bpos less.prems(2) by simp
      from less.hyps [OF this s(3,4)] True less.prems b1le s(4)
      have "gcd_subtract b1 (a - b1) = Some (gcd b1 (a - b1))" by simp
      moreover have "gcd b1 (a - b1) = gcd a b1"
        by (metis gcd.commute gcd_diff1)
      ultimately show ?thesis using step g by simp
    next
      case False
      have step: "gcd_subtract a b = gcd_subtract a (b1 - a)"
        using \<open>b \<noteq> 0\<close> s(1) False by (subst gcd_subtract.simps) simp
      have "nat (a + (b1 - a)) < nat (a + b)" using b1le less.prems(2) s(4) by simp
      from less.hyps [OF this less.prems(1,2,3)] False less.prems b1le s(4)
      have "gcd_subtract a (b1 - a) = Some (gcd a (b1 - a))" by simp
      moreover have "gcd a (b1 - a) = gcd a b1"
        by (metis gcd.commute gcd_diff1)
      ultimately show ?thesis using step g by simp
    qed
  qed
qed

text \<open>
  Where the binary algorithm works: a first argument that is not zero, and both arguments
  of magnitude below \<open>2 ^ 31\<close>, so that the bitwise operators see the numbers themselves.
\<close>

lemma gcd_ts_in_range:
  assumes "a \<noteq> 0" and "\<bar>a\<bar> < 2 ^ 31" and "\<bar>b\<bar> < 2 ^ 31"
  shows "gcd_ts a b = Some (gcd a b)"
proof -
  have A: "0 < \<bar>a\<bar>" "0 \<le> \<bar>b\<bar>" using assms(1) by simp_all
  from gcd_common_twos_result [OF A(1) assms(2) A(2) assms(3), of 0]
  obtain k a1 b1 where c: "gcd_common_twos \<bar>a\<bar> \<bar>b\<bar> 0 = Some (a1, b1, k)"
    "\<bar>a\<bar> = a1 * 2 ^ k" "\<bar>b\<bar> = b1 * 2 ^ k" "odd a1 \<or> odd b1" "0 < a1" "0 \<le> b1" by auto
  have a1: "a1 \<le> \<bar>a\<bar>" using c(2,5) by (simp add: mult_le_cancel_left1)
  have b1: "b1 \<le> \<bar>b\<bar>" using c(3,6) by (simp add: mult_le_cancel_left1)
  from a1 assms(2) have a1lt: "a1 < 2 ^ 31" by simp
  from gcd_strip_twos_result [OF c(5) a1lt]
  obtain j a2 where s: "gcd_strip_twos a1 = Some a2" "a1 = a2 * 2 ^ j" "odd a2" "0 < a2" by blast
  have a2: "a2 \<le> a1" using s(2,4) by (simp add: mult_le_cancel_left1)
  have m: "gcd_subtract a2 b1 = Some (gcd a2 b1)"
    using s(3,4) a2 a1lt c(6) b1 assms(3) by (intro gcd_subtract_result) simp_all
  have g1: "gcd a1 b1 = gcd a2 b1"
  proof (cases "odd a1")
    case True
    with s(2,3) have "j = 0" by (cases j) simp_all
    with s(2) show ?thesis by simp
  next
    case False
    with c(4) have "odd b1" by simp
    then have "gcd b1 (a2 * 2 ^ j) = gcd b1 a2" by (rule gcd_odd_twos)
    with s(2) show ?thesis by (simp add: gcd.commute)
  qed
  have "gcd a b = gcd \<bar>a\<bar> \<bar>b\<bar>" by simp
  also have "\<dots> = gcd (2 ^ k * a1) (2 ^ k * b1)" using c(2,3) by (simp add: mult.commute)
  also have "\<dots> = \<bar>2 ^ k\<bar> * gcd a1 b1" by (rule gcd_mult_distrib_int [symmetric])
  finally have g: "gcd a b = gcd a2 b1 * 2 ^ k" using g1 by simp
  have gpos: "0 < gcd a2 b1" using s(4) gcd_pos_int [of a2 b1] by simp
  have "gcd a b \<le> \<bar>a\<bar>" using assms(1) by (metis abs_ge_zero abs_zero gcd_le1_int gcd_abs1_int le_less zero_less_abs_iff)
  with assms(2) g have lt: "gcd a2 b1 * 2 ^ k < 2 ^ 31" by simp
  have "1 \<le> gcd a2 b1" using gpos by linarith
  then have "1 * (2::int) ^ k \<le> gcd a2 b1 * 2 ^ k" by (intro mult_right_mono) simp_all
  then have "(2::int) ^ k \<le> gcd a2 b1 * 2 ^ k" by simp
  from this lt have p: "(2::int) ^ k < 2 ^ 31" by (rule le_less_trans)
  have k: "k < 31"
  proof (rule ccontr)
    assume "\<not> k < 31"
    then have "(2::int) ^ 31 \<le> 2 ^ k" by (intro power_increasing) simp_all
    with p show False by linarith
  qed
  have "js_shl (gcd a2 b1) k = gcd a2 b1 * 2 ^ k"
    using gpos lt k by (intro js_shl_small) simp_all
  with c(1) s(1) m g show ?thesis by (simp add: gcd_ts_def)
qed

lemma gcd_ts_examples: "gcd_ts 48 18 = Some 6" "gcd_ts 17 5 = Some 1"
  by code_simp+

lemma lcm_ts_in_range:
  assumes "a \<noteq> 0" and "b \<noteq> 0" and "\<bar>a\<bar> < 2 ^ 31" and "\<bar>b\<bar> < 2 ^ 31"
  shows "lcm_ts a b = Some (Finite (of_int (lcm a b)))"
proof -
  have g: "gcd_ts a b = Some (gcd a b)" using assms(1,3,4) by (rule gcd_ts_in_range)
  have nz: "gcd a b \<noteq> 0" using assms(1) by simp
  have "\<bar>a * b\<bar> = lcm a b * gcd a b"
    by (simp add: lcm_gcd_prod abs_mult)
  then have "(of_int \<bar>a * b\<bar> :: rat) = of_int (lcm a b) * of_int (gcd a b)"
    by (simp only: of_int_mult)
  moreover have "(of_int (gcd a b) :: rat) \<noteq> 0" using nz by simp
  ultimately have "(of_int \<bar>a * b\<bar> :: rat) / of_int (gcd a b) = of_int (lcm a b)"
    by simp
  with g nz show ?thesis by (simp add: lcm_ts_def js_div_def)
qed

text \<open>
  The bound \<open>2 ^ 31\<close> is sharp: \<open>2 ^ 31\<close> itself is seen as \<open>- 2 ^ 31\<close>, the second loop
  shifts it down to \<open>-1\<close>, and the third loop then goes round with \<open>b\<close> taking the values 1
  and 2 in turn.
\<close>

lemma gcd_strip_twos_small: "gcd_strip_twos 1 = Some 1" "gcd_strip_twos 2 = Some 1"
  by code_simp+

lemma gcd_subtract_minus_one:
  assumes "gcd_subtract a b = Some y"
  shows "\<not> (a = - 1 \<and> (b = 1 \<or> b = 2))"
  by (rule gcd_subtract.raw_induct [where P = "\<lambda>a b y. \<not> (a = - 1 \<and> (b = 1 \<or> b = 2))", OF _ assms])
     (fastforce simp: gcd_strip_twos_small split: if_splits)

lemma gcd_ts_at_2_31: "gcd_ts 2147483648 1 = None"
proof -
  have 1: "gcd_common_twos 2147483648 1 0 = Some (2147483648, 1, 0)"
    by (subst gcd_common_twos.simps) (simp add: js_and_1 even_js_or)
  have 2: "gcd_strip_twos 2147483648 = Some (- 1)"
    by code_simp
  have "gcd_subtract (- 1) 1 = None"
    using gcd_subtract_minus_one [of "- 1" 1] by (cases "gcd_subtract (- 1) 1") auto
  with 1 2 show ?thesis by (simp add: gcd_ts_def)
qed

text \<open>
  Where \<open>gcd\<close> is right, so is the identity: for nonzero integers \<open>a\<close> and \<open>b\<close> of magnitude
  below \<open>2 ^ 31\<close> whose product has magnitude at most \<open>2 ^ 53\<close>, \<open>lcm(a, b)\<close> and \<open>gcd(a, b)\<close>
  return and \<open>lcm(a, b) * gcd(a, b)\<close> equals \<open>|a * b|\<close>; the two results are the greatest
  common divisor and the least common multiple. The bound on the product is the range in
  which the product and the quotient of \<open>lcm\<close> are computed exactly, as the embedding has
  them.
\<close>

lemma lcm_times_gcd:
  assumes "a \<noteq> 0" and "b \<noteq> 0" and "\<bar>a\<bar> < 2 ^ 31" and "\<bar>b\<bar> < 2 ^ 31" and "\<bar>a * b\<bar> \<le> 2 ^ 53"
  shows "\<exists>l g. lcm_ts a b = Some (Finite l) \<and> gcd_ts a b = Some g
           \<and> l * of_int g = of_int \<bar>a * b\<bar> \<and> g = gcd a b \<and> l = of_int (lcm a b)"
proof -
  have g: "gcd_ts a b = Some (gcd a b)" using assms(1,3,4) by (rule gcd_ts_in_range)
  have l: "lcm_ts a b = Some (Finite (of_int (lcm a b)))" using assms(1-4) by (rule lcm_ts_in_range)
  have "\<bar>a * b\<bar> = lcm a b * gcd a b"
    by (simp add: lcm_gcd_prod abs_mult)
  then have "(of_int (lcm a b) :: rat) * of_int (gcd a b) = of_int \<bar>a * b\<bar>"
    by (metis of_int_mult)
  with g l show ?thesis by blast
qed

lemma lcm_times_gcd_example:
  "(4::int) \<noteq> 0 \<and> (6::int) \<noteq> 0 \<and> \<bar>4::int\<bar> < 2 ^ 31 \<and> \<bar>6::int\<bar> < 2 ^ 31 \<and> \<bar>4 * 6 :: int\<bar> \<le> 2 ^ 53
   \<and> lcm_ts 4 6 = Some (Finite 12) \<and> gcd_ts 4 6 = Some 2"
proof -
  have h: "(4::int) \<noteq> 0" "(6::int) \<noteq> 0" "\<bar>4::int\<bar> < 2 ^ 31" "\<bar>6::int\<bar> < 2 ^ 31" "\<bar>4 * 6 :: int\<bar> \<le> 2 ^ 53"
    by simp_all
  have e: "lcm_ts 4 6 = Some (Finite 12)" "gcd_ts 4 6 = Some 2"
    by code_simp+
  from lcm_times_gcd [OF h] h e show ?thesis by simp
qed

text \<open>
  Above the 32-bit range \<open>gcd\<close> can also return a number that is not the greatest common
  divisor: \<open>4294967298 = 2 ^ 32 + 2\<close> is a multiple of 6 and is seen as 2.
\<close>

lemma gcd_ts_above_range: "gcd_ts 6 4294967298 = Some 2" "gcd 6 (4294967298 :: int) = 6"
  by code_simp+

text \<open>
  Claim C6: for every pair of nonzero integers \<open>a\<close> and \<open>b\<close>, \<open>lcm(a, b) * gcd(a, b)\<close> equals
  \<open>|a * b|\<close>.

  \<open>gcd\<close> works with the 32-bit bitwise operators, which see a number of magnitude
  \<open>2 ^ 32\<close> as 0; on 0 the loop that removes the factors 2 never ends. \<open>4294967296\<close> and 3
  are nonzero integers that a number holds exactly, yet \<open>lcm(4294967296, 3)\<close> and
  \<open>gcd(4294967296, 3)\<close> do not return: there is no product to compare with \<open>|a * b|\<close>.
\<close>

theorem lcm_gcd_out_of_range: "lcm_ts 4294967296 3 = None \<and> gcd_ts 4294967296 3 = None"
proof -
  have 1: "gcd_common_twos 4294967296 3 0 = Some (4294967296, 3, 0)"
    by (subst gcd_common_twos.simps) (simp add: js_and_1 even_js_or)
  have sh: "js_shr 4294967296 1 = 0"
    by (simp add: js_shr_def toInt32_def)
  have "gcd_strip_twos 4294967296 = gcd_strip_twos (js_shr 4294967296 1)"
    by (subst gcd_strip_twos.simps) (simp add: js_and_1)
  then have 2: "gcd_strip_twos 4294967296 = None"
    unfolding sh by (simp add: gcd_strip_twos_zero)
  from 1 2 have "gcd_ts 4294967296 3 = None" by (simp add: gcd_ts_def)
  then show ?thesis by (simp add: lcm_ts_def)
qed

section \<open>Properties of unique\<close>

lemma fold_set_add:
  "fold (\<lambda>x s. set_add s x) arr acc = acc @ filter (\<lambda>y. y \<notin> set acc) (first_occurrences arr)"
proof (induction arr arbitrary: acc)
  case Nil
  then show ?case by simp
next
  case (Cons x xs)
  show ?case
  proof (cases "x \<in> set acc")
    case True
    then have "filter (\<lambda>y. y \<notin> set acc) (filter (\<lambda>y. y \<noteq> x) (first_occurrences xs))
        = filter (\<lambda>y. y \<notin> set acc) (first_occurrences xs)"
      by (auto intro: filter_cong)
    with True Cons.IH [of acc] show ?thesis by (simp add: set_add_def)
  next
    case False
    have "filter (\<lambda>y. y \<notin> set (acc @ [x])) (first_occurrences xs)
        = filter (\<lambda>y. y \<notin> set acc) (filter (\<lambda>y. y \<noteq> x) (first_occurrences xs))"
      by (auto intro: filter_cong)
    with False Cons.IH [of "acc @ [x]"] show ?thesis by (simp add: set_add_def)
  qed
qed

lemma unique_loop_eq:
  "dom seen = set result \<Longrightarrow>
   unique_loop arr seen result = result @ filter (\<lambda>y. y \<notin> set result) (first_occurrences arr)"
proof (induction arr arbitrary: seen result)
  case Nil
  then show ?case by simp
next
  case (Cons x xs)
  show ?case
  proof (cases "x \<in> set result")
    case True
    then have s: "seen x \<noteq> None" using Cons.prems by auto
    have "filter (\<lambda>y. y \<notin> set result) (filter (\<lambda>y. y \<noteq> x) (first_occurrences xs))
        = filter (\<lambda>y. y \<notin> set result) (first_occurrences xs)"
      using True by (auto intro: filter_cong)
    with True s Cons.IH [OF Cons.prems] show ?thesis by auto
  next
    case False
    then have s: "seen x = None" using Cons.prems by auto
    have d: "dom (seen(x \<mapsto> True)) = set (result @ [x])" using Cons.prems by auto
    have f: "filter (\<lambda>y. y \<notin> set (result @ [x])) (first_occurrences xs)
        = filter (\<lambda>y. y \<notin> set result) (filter (\<lambda>y. y \<noteq> x) (first_occurrences xs))"
      by (auto intro: filter_cong)
    have "unique_loop (x # xs) seen result = unique_loop xs (seen(x \<mapsto> True)) (result @ [x])"
      using s by simp
    also have "\<dots> = (result @ [x]) @ filter (\<lambda>y. y \<notin> set (result @ [x])) (first_occurrences xs)"
      by (rule Cons.IH [OF d])
    also have "\<dots> = result @ filter (\<lambda>y. y \<notin> set result) (first_occurrences (x # xs))"
      using False by (simp only: f) simp
    finally show ?thesis .
  qed
qed

lemma unique_small_eq: "unique_small arr = first_occurrences arr"
  by (simp add: unique_small_def new_Set_def fold_set_add)

lemma unique_large_eq: "unique_large arr = first_occurrences arr"
  by (simp add: unique_large_def unique_loop_eq)

lemma unique_eq: "unique arr = first_occurrences arr"
  by (simp add: unique_def unique_small_eq unique_large_eq)

lemma set_first_occurrences: "set (first_occurrences xs) = set xs"
  by (induction xs) auto

lemma distinct_first_occurrences: "distinct (first_occurrences xs)"
  by (induction xs) auto

lemma first_index_Cons:
  "first_index (x # xs) y = (if y = x then 0 else Suc (first_index xs y))"
  by (auto simp: first_index_def)

lemma first_index_less: "y \<in> set xs \<Longrightarrow> first_index xs y < length xs"
  by (induction xs) (auto simp: first_index_Cons)

lemma nth_first_index: "y \<in> set xs \<Longrightarrow> xs ! first_index xs y = y"
  by (induction xs) (auto simp: first_index_Cons)

lemma sorted_first_occurrences:
  "sorted_wrt (<) (map (first_index xs) (first_occurrences xs))"
proof (induction xs)
  case Nil
  then show ?case by simp
next
  case (Cons x xs)
  define L where "L = map (first_index xs) (filter (\<lambda>y. y \<noteq> x) (first_occurrences xs))"
  have "map (first_index (x # xs)) (filter (\<lambda>y. y \<noteq> x) (first_occurrences xs)) = map Suc L"
    by (simp add: first_index_Cons L_def)
  then have e: "map (first_index (x # xs)) (first_occurrences (x # xs)) = 0 # map Suc L"
    by (simp add: first_index_Cons)
  have "sorted_wrt (<) L"
    using Cons.IH by (simp add: L_def sorted_wrt_map sorted_wrt_filter)
  then have "sorted_wrt (<) (0 # map Suc L)"
    by (simp add: sorted_wrt_map)
  with e show ?case by simp
qed

text \<open>
  Claim C10: \<open>unique\<close> returns each distinct element exactly once, in order of first
  occurrence in the input; the branch for a small array (a \<open>Set\<close>) and the branch for a
  large one (a \<open>Map\<close>) compute the same result for the same elements.

  The result has no duplicates and the elements of the input; the positions of the first
  occurrences of its elements in the input increase strictly along it; and the two
  branches agree on every array, whatever its length.
\<close>

theorem unique_first_occurrences:
  "distinct (unique arr) \<and> set (unique arr) = set arr
   \<and> sorted_wrt (<) (map (first_index arr) (unique arr))
   \<and> unique_small arr = unique_large arr"
  by (simp add: unique_eq unique_small_eq unique_large_eq set_first_occurrences
      distinct_first_occurrences sorted_first_occurrences)

lemma unique_example: "unique [1, 1, 2, 2, 3 :: int] = [1, 2, 3]"
  by (simp add: unique_eq)

section \<open>Properties of windows and transpose\<close>

lemma windows_example: "windows ''ABCDEF'' 3 = [''ABC'', ''BCD'', ''CDE'', ''DEF'']"
  by (simp add: windows_def js_slice_def)

lemma transpose_example:
  "transpose_ts [[1, 2, 3], [4, 5, 6 :: int]]
     = Inr [[Some 1, Some 4], [Some 2, Some 5], [Some 3, Some 6]]"
  by (simp add: transpose_ts_def upt_rec)

text \<open>
  Claim C3: for every input outside a function's documented domain, in particular
  \<open>transpose\<close> applied to an empty matrix and \<open>windows\<close> with a size larger than the array's
  length, the function returns an empty result rather than throwing.

  \<open>windows\<close> has the check and returns the empty array. \<open>transpose\<close> has none: on the
  empty matrix it throws, so its result is not the empty array.
\<close>

theorem transpose_empty_throws: "transpose_ts ([] :: int list list) \<noteq> Inr []"
  by (simp add: transpose_ts_def)

text \<open>
  Claim C3, as the code has it: \<open>windows\<close> with a size larger than the array's length
  returns the empty array; \<open>transpose\<close> applied to an empty matrix throws a \<open>TypeError\<close>,
  and applied to a matrix with a first row it returns one row for each column of that row.
\<close>

theorem windows_empty_transpose_throws:
  "(int (length array) < sz \<longrightarrow> windows array sz = [])
   \<and> transpose_ts ([] :: 'a list list) = Inl TypeError
   \<and> (matrix \<noteq> [] \<longrightarrow> (\<exists>r. transpose_ts matrix = Inr r \<and> length r = length (hd matrix)))"
  by (cases matrix) (simp_all add: windows_def transpose_ts_def)

theorem windows_empty_transpose_throws_witness:
  "int (length [1, 2 :: int]) < 3 \<and> windows [1, 2 :: int] 3 = []
   \<and> transpose_ts ([] :: int list list) = Inl TypeError
   \<and> [[1, 2 :: int]] \<noteq> [] \<and> (\<exists>r. transpose_ts [[1, 2 :: int]] = Inr r \<and> length r = length (hd [[1, 2 :: int]]))"
  using windows_empty_transpose_throws [of "[1, 2 :: int]" 3 "[[1, 2 :: int]]"] by simp

section \<open>Properties of the test harness\<close>

lemma runPart1Tests_day8:
  "runPart1Tests lg rtp sol day8_tests w = rtp sol (the (part1 day8_tests)) 1 w"
  by (simp add: runPart1Tests_def day8_tests_def)

text \<open>
  What the branch of a part without cases would do if \<open>log\<close> were bound to a logging
  function \<open>lg\<close>: write the message of a skipped part with \<open>lg\<close> and return \<open>true\<close>, without
  calling \<open>runTestPart\<close>.
\<close>

lemma no_tests_with_log_bound:
  "((part1 tests = None \<or> part1 tests = Some []) \<longrightarrow>
      runPart1Tests (Some lg) rtp sol1 tests w = (Inr True, lg (no_tests_message 1) w))
   \<and> ((part2 tests = None \<or> part2 tests = Some []) \<longrightarrow>
      runPart2Tests (Some lg) rtp sol2 tests w = (Inr True, lg (no_tests_message 2) w))"
  by (auto simp: runPart1Tests_def runPart2Tests_def)

lemma no_tests_unbound_log:
  "(part1 tests = None \<or> part1 tests = Some []) \<Longrightarrow>
     runPart1Tests None rtp sol1 tests w = (Inl ReferenceError, w)"
  "(part2 tests = None \<or> part2 tests = Some []) \<Longrightarrow>
     runPart2Tests None rtp sol2 tests w = (Inl ReferenceError, w)"
  by (auto simp: runPart1Tests_def runPart2Tests_def)


section \<open>Properties of create2DArray\<close>













lemma create2DArray_negative: "create2DArray (- 1) 3 (Other x) = Inl RangeError"
  by (simp add: create2DArray_def is_small_uint_def array_length_ok_def)

lemma create2DArray_example:
  "create2DArray 2 3 (Number (Finite 0) :: unit jsval) = Inr [Uint8Row [0, 0, 0], Uint8Row [0, 0, 0]]"
proof -
  have "array_length_ok 2" "typed_array_length_ok 3"
    by (simp_all add: array_length_ok_def typed_array_length_ok_def)
  then show ?thesis
    by (simp add: create2DArray_def is_small_uint_def uint8_fill_def uint8_set_def toUint8_def
        Let_def upt_rec numeral_eq_Suc)
qed

section \<open>Properties of mergeRanges\<close>

text \<open>Sums of magnitude at most \<open>2 ^ 53\<close> are exact; the sum after \<open>2 ^ 53 + 2\<close> is not.\<close>

lemma excess_bits_small: "m < 2 ^ 53 \<Longrightarrow> excess_bits m = 0"
  by simp

lemma round_double_exact:
  assumes "\<bar>x\<bar> \<le> 2 ^ 53"
  shows "round_double x = x"
proof (cases "\<bar>x\<bar> < 2 ^ 53")
  case True
  then have e: "excess_bits \<bar>x\<bar> = 0" by (rule excess_bits_small)
  show ?thesis unfolding round_double_def Let_def e by (simp add: mult_sgn_abs)
next
  case False
  with assms have "x = 9007199254740992 \<or> x = - 9007199254740992"
    by (simp add: abs_if split: if_splits)
  moreover have "round_double 9007199254740992 = 9007199254740992"
    "round_double (- 9007199254740992) = - 9007199254740992"
    by code_simp+
  ultimately show ?thesis by (elim disjE) (simp_all only:)
qed

lemma js_add_exact: "\<bar>x + y\<bar> \<le> 2 ^ 53 \<Longrightarrow> js_add x y = x + y"
  unfolding js_add_def by (rule round_double_exact)

lemma js_add_one_safe: "safe_integer x \<Longrightarrow> js_add x 1 = x + 1"
  by (rule js_add_exact) (simp add: safe_integer_def)

lemma js_add_rounds: "js_add 9007199254740994 1 = 9007199254740996"
  by code_simp

lemma safe_ranges_simps [simp]:
  "safe_ranges []"
  "safe_ranges (r # rs) = (safe_integer (fst r) \<and> safe_integer (snd r) \<and> safe_ranges rs)"
  by (auto simp: safe_ranges_def)

lemma safe_ranges_iff:
  "safe_ranges rs = (\<forall>r\<in>set rs. safe_integer (fst r) \<and> safe_integer (snd r))"
  by (simp add: safe_ranges_def list_all_iff)

lemma safe_integer_max: "safe_integer a \<Longrightarrow> safe_integer b \<Longrightarrow> safe_integer (max a b)"
  by (simp add: max_def)

lemma merge_loop_snoc_Nil [simp]: "merge_loop [] (ms @ [l]) = ms @ [l]"
  by simp

lemma merge_loop_snoc_Cons:
  assumes "safe_integer le"
  shows "merge_loop ((s, e) # rest) (ms @ [(ls, le)]) =
     (if s \<le> le + 1 then merge_loop rest (ms @ [(ls, max le e)])
      else merge_loop rest ((ms @ [(ls, le)]) @ [(s, e)]))"
  using js_add_one_safe [OF assms] by (simp add: Let_def)

lemma points_simps [simp]:
  "points [] = {}"
  "points (r # rs) = {fst r..snd r} \<union> points rs"
  "points (rs @ rs') = points rs \<union> points rs'"
  by (auto simp: points_def)

lemma well_formed_simps [simp]:
  "well_formed []"
  "well_formed (r # rs) = (fst r \<le> snd r \<and> well_formed rs)"
  "well_formed (rs @ rs') = (well_formed rs \<and> well_formed rs')"
  by (auto simp: well_formed_def)

lemma well_formed_iff: "well_formed rs = (\<forall>r\<in>set rs. fst r \<le> snd r)"
  by (simp add: well_formed_def list_all_iff)

lemma merge_loop_invariant:
  assumes "sorted (map fst rest)" and "well_formed rest"
    and "\<forall>r\<in>set rest. ls \<le> fst r" and "ls \<le> le"
    and "separated (ms @ [(ls, le)])"
    and "safe_ranges rest" and "safe_integer le"
  shows "separated (merge_loop rest (ms @ [(ls, le)]))
     \<and> points (merge_loop rest (ms @ [(ls, le)])) = points ms \<union> {ls..le} \<union> points rest"
  using assms
proof (induction rest arbitrary: ms ls le)
  case Nil
  then show ?case by simp
next
  case (Cons r rest)
  obtain s e where r: "r = (s, e)" by (cases r)
  from Cons.prems r have se: "s \<le> e" "ls \<le> s" and srt: "sorted (map fst rest)"
    and wf: "well_formed rest" and ge: "\<forall>q\<in>set rest. s \<le> fst q"
    and sf: "safe_ranges rest" and sfe: "safe_integer e"
    by auto
  note sfl = \<open>safe_integer le\<close>
  show ?case
  proof (cases "s \<le> le + 1")
    case True
    have sep: "separated (ms @ [(ls, max le e)])"
      using Cons.prems(5) Cons.prems(4) by (auto simp: separated_def sorted_wrt_append)
    have ge': "\<forall>q\<in>set rest. ls \<le> fst q" using ge se by auto
    have "ls \<le> max le e" using Cons.prems(4) by simp
    from Cons.IH [OF srt wf ge' this sep sf safe_integer_max [OF sfl sfe]]
    have "separated (merge_loop rest (ms @ [(ls, max le e)]))"
      and "points (merge_loop rest (ms @ [(ls, max le e)])) = points ms \<union> {ls..max le e} \<union> points rest"
      by simp_all
    moreover have "{ls..max le e} = {ls..le} \<union> {s..e}"
      using True se Cons.prems(4) by auto
    ultimately show ?thesis
      using True r by (simp add: merge_loop_snoc_Cons [OF sfl] Un_assoc del: merge_loop.simps)
  next
    case False
    have sep: "separated ((ms @ [(ls, le)]) @ [(s, e)])"
      using Cons.prems(5) False se by (auto simp: separated_def sorted_wrt_append)
    from Cons.IH [OF srt wf ge se(1) sep sf sfe]
    have "separated (merge_loop rest ((ms @ [(ls, le)]) @ [(s, e)]))"
      and "points (merge_loop rest ((ms @ [(ls, le)]) @ [(s, e)]))
           = points (ms @ [(ls, le)]) \<union> {s..e} \<union> points rest"
      by simp_all
    then show ?thesis
      using False r by (simp add: merge_loop_snoc_Cons [OF sfl] Un_assoc del: merge_loop.simps)
  qed
qed

lemma mergeRanges_separated_points:
  assumes "well_formed ranges" and "safe_ranges ranges"
  shows "separated (mergeRanges ranges) \<and> points (mergeRanges ranges) = points ranges"
proof (cases ranges)
  case Nil
  then show ?thesis by (simp add: mergeRanges_def separated_def)
next
  case (Cons a list)
  define srt where "srt = sort_key fst ranges"
  have set_srt: "set srt = set ranges" and sorted_srt: "sorted (map fst srt)"
    by (simp_all add: srt_def)
  from Cons have "srt \<noteq> []" by (auto simp: srt_def)
  then obtain h t where ht: "srt = h # t" by (cases srt) auto
  obtain ls le where h: "h = (ls, le)" by (cases h)
  have wf: "well_formed srt" using assms(1) set_srt by (simp add: well_formed_iff)
  have sf: "safe_ranges srt" using assms(2) set_srt by (simp add: safe_ranges_iff)
  have 1: "sorted (map fst t)" and 3: "\<forall>r\<in>set t. ls \<le> fst r"
    using sorted_srt ht h by auto
  have 2: "well_formed t" and 4: "ls \<le> le" using wf ht h by auto
  have 5: "separated ([] @ [(ls, le)])" using 4 by (simp add: separated_def)
  have 6: "safe_ranges t" and 7: "safe_integer le" using sf ht h by auto
  from merge_loop_invariant [OF 1 2 3 4 5 6 7]
  have "separated (merge_loop t [(ls, le)])"
    and "points (merge_loop t [(ls, le)]) = {ls..le} \<union> points t"
    by simp_all
  moreover have "mergeRanges ranges = merge_loop t [(ls, le)]"
  proof -
    have "ranges \<noteq> []" using Cons by simp
    then show ?thesis
      unfolding mergeRanges_def srt_def [symmetric] using ht h by simp
  qed
  moreover have "points ranges = {ls..le} \<union> points t"
  proof -
    have "points ranges = points srt" using set_srt by (simp add: points_def)
    then show ?thesis using ht h by simp
  qed
  ultimately show ?thesis by simp
qed

lemma sorted_wrt_related:
  "sorted_wrt P xs \<Longrightarrow> a \<in> set xs \<Longrightarrow> b \<in> set xs \<Longrightarrow> a = b \<or> P a b \<or> P b a"
  by (induction xs) auto

lemma separated_Cons:
  "separated (p # rs) =
     (fst p \<le> snd p \<and> (\<forall>q\<in>set rs. snd p + 1 < fst q) \<and> separated rs)"
  by (auto simp: separated_def)

lemma separated_gap:
  assumes "separated rs" and "r \<in> set rs"
  shows "snd r + 1 \<notin> points rs"
proof
  assume "snd r + 1 \<in> points rs"
  then obtain q where q: "q \<in> set rs" "fst q \<le> snd r + 1" "snd r + 1 \<le> snd q"
    by (auto simp: points_def)
  from assms have wf: "fst r \<le> snd r" by (simp add: separated_def well_formed_iff)
  from assms(1) have "sorted_wrt (\<lambda>p q. snd p + 1 < fst q) rs" by (simp add: separated_def)
  from sorted_wrt_related [OF this assms(2) q(1)]
  show False using q wf by auto
qed

lemma separated_sorted: "separated rs \<Longrightarrow> sorted (map fst rs)"
proof (induction rs)
  case Nil
  then show ?case by simp
next
  case (Cons p rs)
  then show ?case by (fastforce simp: separated_Cons)
qed

lemma separated_distinct: "separated rs \<Longrightarrow> distinct rs"
proof (induction rs)
  case Nil
  then show ?case by simp
next
  case (Cons p rs)
  then show ?case by (fastforce simp: separated_Cons)
qed

lemma separated_tail_points:
  assumes "separated (p # rs)" and "x \<in> points rs"
  shows "snd p + 1 < x"
proof -
  from assms(2) obtain q where "q \<in> set rs" "fst q \<le> x" by (auto simp: points_def)
  with assms(1) show ?thesis by (fastforce simp: separated_Cons)
qed

lemma separated_unique:
  "separated rs \<Longrightarrow> separated rs' \<Longrightarrow> points rs = points rs' \<Longrightarrow> rs = rs'"
proof (induction rs arbitrary: rs')
  case Nil
  show ?case
  proof (cases rs')
    case Nil
    then show ?thesis by simp
  next
    case (Cons p list)
    with Nil.prems(2) have "fst p \<in> points rs'" by (simp add: separated_Cons)
    with Nil.prems(3) show ?thesis by simp
  qed
next
  case (Cons p rs)
  from Cons.prems(1) have p: "fst p \<le> snd p" by (simp add: separated_Cons)
  show ?case
  proof (cases rs')
    case Nil
    from p have "fst p \<in> points (p # rs)" by simp
    with Cons.prems(3) Nil show ?thesis by simp
  next
    case (Cons p' list)
    note sep = Cons.prems(1) and sep' = Cons.prems(2) [unfolded Cons]
    note pts = Cons.prems(3) [unfolded Cons]
    from sep' have p': "fst p' \<le> snd p'" by (simp add: separated_Cons)
    have lo: "fst p \<le> x" if "x \<in> points (p # rs)" for x
      using that separated_tail_points [OF sep] p by fastforce
    have lo': "fst p' \<le> x" if "x \<in> points (p' # list)" for x
      using that separated_tail_points [OF sep'] p' by fastforce
    have m: "fst p \<in> points (p # rs)" and m': "fst p' \<in> points (p' # list)"
      using p p' by simp_all
    have "fst p' \<in> points (p # rs)" unfolding pts by (rule m')
    then have "fst p \<le> fst p'" by (rule lo)
    moreover have "fst p \<in> points (p' # list)" unfolding pts [symmetric] by (rule m)
    then have "fst p' \<le> fst p" by (rule lo')
    ultimately have f: "fst p = fst p'" by simp
    have s: "snd p = snd p'"
    proof (rule ccontr)
      assume "snd p \<noteq> snd p'"
      then consider "snd p < snd p'" | "snd p' < snd p" by linarith
      then show False
      proof cases
        case 1
        then have "snd p + 1 \<in> points (p' # list)" using f p by simp
        with pts have "snd p + 1 \<in> points (p # rs)" by simp
        with separated_gap [OF sep, of p] show False by simp
      next
        case 2
        then have "snd p' + 1 \<in> points (p # rs)" using f p' by simp
        with pts have "snd p' + 1 \<in> points (p' # list)" by simp
        with separated_gap [OF sep', of p'] show False by simp
      qed
    qed
    from f s have pp: "p = p'" by (simp add: prod_eq_iff)
    have d: "points rs \<inter> {fst p..snd p} = {}" using separated_tail_points [OF sep] by fastforce
    have d': "points list \<inter> {fst p..snd p} = {}"
      using separated_tail_points [OF sep'] pp by fastforce
    have "points rs = points (p # rs) - {fst p..snd p}" using d by auto
    also have "\<dots> = points (p' # list) - {fst p..snd p}" using pts by simp
    also have "\<dots> = points list" using d' pp by auto
    finally have "points rs = points list" .
    moreover from sep sep' have "separated rs" "separated list" by (simp_all add: separated_Cons)
    ultimately have "rs = list" by (rule Cons.IH [rotated 2])
    with pp Cons show ?thesis by simp
  qed
qed

lemma separated_contains_run:
  assumes "separated rs" and "a \<le> b" and "{a..b} \<subseteq> points rs"
  shows "\<exists>r\<in>set rs. fst r \<le> a \<and> b \<le> snd r"
proof -
  from assms(2,3) have "a \<in> points rs" by auto
  then obtain r where r: "r \<in> set rs" "fst r \<le> a" "a \<le> snd r" by (auto simp: points_def)
  have "b \<le> snd r"
  proof (rule ccontr)
    assume "\<not> b \<le> snd r"
    with r have "snd r + 1 \<in> {a..b}" by simp
    with assms(3) have "snd r + 1 \<in> points rs" by blast
    with separated_gap [OF assms(1) r(1)] show False by simp
  qed
  with r show ?thesis by blast
qed

lemma separated_minimal:
  assumes "separated rs" and "points cover = points rs"
  shows "length rs \<le> length cover"
proof -
  have ex: "\<exists>c. c \<in> set cover \<and> fst c \<le> fst r \<and> fst r \<le> snd c" if "r \<in> set rs" for r
  proof -
    from assms(1) that have "fst r \<le> snd r" by (simp add: separated_def well_formed_iff)
    with that have "fst r \<in> points rs" by (auto simp: points_def)
    with assms(2) have "fst r \<in> points cover" by simp
    then obtain c where "c \<in> set cover" "fst r \<in> {fst c..snd c}"
      unfolding points_def by blast
    then show ?thesis by (intro exI [of _ c]) simp
  qed
  define f where "f r = (SOME c. c \<in> set cover \<and> fst c \<le> fst r \<and> fst r \<le> snd c)" for r :: range
  have f: "f r \<in> set cover \<and> fst (f r) \<le> fst r \<and> fst r \<le> snd (f r)" if "r \<in> set rs" for r
    unfolding f_def using ex [OF that] by (rule someI_ex)
  have "inj_on f (set rs)"
  proof (rule inj_onI)
    fix r r' assume rr: "r \<in> set rs" "r' \<in> set rs" and eq: "f r = f r'"
    from assms(1) have srt: "sorted_wrt (\<lambda>p q. snd p + 1 < fst q) rs" by (simp add: separated_def)
    have no: False if a: "u \<in> set rs" "v \<in> set rs" "snd u + 1 < fst v" "f u = f v" for u v
    proof -
      from assms(1) a(1) have "fst u \<le> snd u" by (simp add: separated_def well_formed_iff)
      with f [OF a(1)] f [OF a(2)] a(3,4) have "snd u + 1 \<in> {fst (f u)..snd (f u)}" by simp
      with f [OF a(1)] have "snd u + 1 \<in> points cover" by (auto simp: points_def)
      with assms(2) separated_gap [OF assms(1) a(1)] show False by simp
    qed
    from sorted_wrt_related [OF srt rr] no [of r r'] no [of r' r] rr eq
    show "r = r'" by auto
  qed
  moreover have "f ` set rs \<subseteq> set cover" using f by auto
  ultimately have "card (set rs) \<le> card (set cover)"
    by (intro card_inj_on_le [of f]) auto
  also have "\<dots> \<le> length cover" by (rule card_length)
  finally show ?thesis using separated_distinct [OF assms(1)] by (simp add: distinct_card)
qed

lemma points_mset: "mset rs' = mset rs \<Longrightarrow> points rs' = points rs"
  using mset_eq_setD [of rs' rs] by (simp add: points_def)

lemma well_formed_mset: "mset rs' = mset rs \<Longrightarrow> well_formed rs' = well_formed rs"
  using mset_eq_setD [of rs' rs] by (simp add: well_formed_iff)

lemma safe_ranges_mset: "mset rs' = mset rs \<Longrightarrow> safe_ranges rs' = safe_ranges rs"
  using mset_eq_setD [of rs' rs] by (simp add: safe_ranges_iff)

lemma sort_key_two:
  "sort_key fst [p, q :: range] = (if fst p \<le> fst q then [p, q] else [q, p])"
  by simp

lemma mergeRanges_two:
  assumes "fst p \<le> snd p" and "fst q \<le> snd q" and "safe_ranges [p, q]"
  shows "(length (mergeRanges [p, q]) = 1) = touching p q"
proof (cases "fst p \<le> fst q")
  case True
  obtain s e where q: "q = (s, e)" by (cases q)
  have a: "js_add (snd p) 1 = snd p + 1" using assms(3) by (simp add: js_add_one_safe)
  have "mergeRanges [p, q] = merge_loop [(s, e)] [p]"
    using True q by (simp add: mergeRanges_def)
  then show ?thesis
    using assms(1,2) True q a by (auto simp: touching_def Let_def)
next
  case False
  obtain s e where p: "p = (s, e)" by (cases p)
  have a: "js_add (snd q) 1 = snd q + 1" using assms(3) by (simp add: js_add_one_safe)
  have "mergeRanges [p, q] = merge_loop [(s, e)] [q]"
    using False p by (simp add: mergeRanges_def)
  then show ?thesis
    using assms(1,2) False p a by (auto simp: touching_def Let_def)
qed

lemma touching_run:
  assumes "touching p q" and "fst p \<le> snd p" and "fst q \<le> snd q"
  shows "{min (fst p) (fst q)..max (snd p) (snd q)} = {fst p..snd p} \<union> {fst q..snd q}"
  using assms by (auto simp: touching_def)

lemma mergeRanges_joins_touching:
  assumes "well_formed ranges" and "p \<in> set ranges" and "q \<in> set ranges" and "touching p q"
    and "safe_ranges ranges"
  shows "\<exists>r\<in>set (mergeRanges ranges). fst r \<le> min (fst p) (fst q) \<and> max (snd p) (snd q) \<le> snd r"
proof -
  from assms(1-3) have wf: "fst p \<le> snd p" "fst q \<le> snd q" by (simp_all add: well_formed_iff)
  have "{fst p..snd p} \<union> {fst q..snd q} \<subseteq> points ranges"
    using assms(2,3) by (auto simp: points_def)
  then have "{min (fst p) (fst q)..max (snd p) (snd q)} \<subseteq> points (mergeRanges ranges)"
    using mergeRanges_separated_points [OF assms(1,5)] touching_run [OF assms(4) wf] by simp
  moreover have "min (fst p) (fst q) \<le> max (snd p) (snd q)" using wf by simp
  ultimately show ?thesis
    using mergeRanges_separated_points [OF assms(1,5)] by (intro separated_contains_run) simp_all
qed

lemma mergeRanges_order_independent:
  assumes "well_formed ranges" and "mset ranges' = mset ranges" and "safe_ranges ranges"
  shows "mergeRanges ranges' = mergeRanges ranges"
proof -
  from assms(1) well_formed_mset [OF assms(2)] have wf': "well_formed ranges'" by simp
  from assms(3) safe_ranges_mset [OF assms(2)] have sf': "safe_ranges ranges'" by simp
  have "points (mergeRanges ranges') = points (mergeRanges ranges)"
    using mergeRanges_separated_points [OF assms(1,3)] mergeRanges_separated_points [OF wf' sf']
      points_mset [OF assms(2)] by simp
  with mergeRanges_separated_points [OF assms(1,3)] mergeRanges_separated_points [OF wf' sf']
  show ?thesis by (intro separated_unique) simp_all
qed

text \<open>
  Claim C5: for every sequence of closed integer intervals \<open>[start, end]\<close>, \<open>mergeRanges\<close>
  returns the minimal sequence of non-overlapping intervals covering the same integer
  points, merging two intervals exactly when they overlap or are adjacent (gap of exactly
  1); the output is sorted ascending by start, and the result is the same for every
  ordering of the input.

  The bounds are numbers, and above \<open>2 ^ 53\<close> a number holds only every second integer.
  For the intervals \<open>[0, 2 ^ 53 + 2]\<close> and \<open>[2 ^ 53 + 4, 2 ^ 53 + 6]\<close>, the sum
  \<open>lastEnd + 1\<close> is rounded from \<open>2 ^ 53 + 3\<close> to \<open>2 ^ 53 + 4\<close>, so the second interval
  passes the test \<open>start <= lastEnd + 1\<close>: the two intervals are merged although they
  neither overlap nor are adjacent, and the result covers the integer \<open>2 ^ 53 + 3\<close>, which
  the input does not.
\<close>

theorem mergeRanges_merges_across_gap:
  "well_formed [(0, 9007199254740994), (9007199254740996, 9007199254740998)]
   \<and> \<not> touching (0, 9007199254740994) (9007199254740996, 9007199254740998)
   \<and> mergeRanges [(0, 9007199254740994), (9007199254740996, 9007199254740998)]
        = [(0, 9007199254740998)]
   \<and> 9007199254740995 \<in> points (mergeRanges [(0, 9007199254740994), (9007199254740996, 9007199254740998)])
   \<and> 9007199254740995 \<notin> points [(0, 9007199254740994), (9007199254740996, 9007199254740998)]"
proof -
  have e: "mergeRanges [(0, 9007199254740994), (9007199254740996, 9007199254740998)]
        = [(0, 9007199254740998)]"
    by (simp add: mergeRanges_def js_add_rounds)
  show ?thesis
    unfolding e by (simp add: touching_def)
qed

text \<open>
  Claim C5, as the code has it: for every sequence of closed intervals \<open>[start, end]\<close>
  whose bounds are safe integers (magnitude at most \<open>2 ^ 53 - 1\<close>), \<open>mergeRanges\<close> returns
  the minimal sequence of non-overlapping intervals covering the same integer points,
  merging two intervals exactly when they overlap or are adjacent; the output is sorted
  ascending by start, and the result is the same for every ordering of the input.

  A closed interval has its start at or before its end (\<open>well_formed\<close>). The result covers
  the points of the input; its ranges are non-empty and each begins more than one past the
  end of every range before it, so no two of them overlap or are adjacent; it is sorted
  by start; no list of ranges covering the same points is shorter; two ranges of the
  input that overlap or are adjacent lie in one range of the result, and two ranges alone
  become one range exactly when they overlap or are adjacent; and every reordering of
  the input gives the same result.
\<close>

theorem mergeRanges_minimal_cover:
  assumes "well_formed ranges" and "safe_ranges ranges"
  shows "points (mergeRanges ranges) = points ranges
    \<and> separated (mergeRanges ranges)
    \<and> sorted (map fst (mergeRanges ranges))
    \<and> (\<forall>cover. points cover = points ranges \<longrightarrow> length (mergeRanges ranges) \<le> length cover)
    \<and> (\<forall>p\<in>set ranges. \<forall>q\<in>set ranges. touching p q \<longrightarrow>
          (\<exists>r\<in>set (mergeRanges ranges). fst r \<le> min (fst p) (fst q) \<and> max (snd p) (snd q) \<le> snd r))
    \<and> (\<forall>p q. fst p \<le> snd p \<and> fst q \<le> snd q \<and> safe_ranges [p, q] \<longrightarrow>
          (length (mergeRanges [p, q]) = 1) = touching p q)
    \<and> (\<forall>ranges'. mset ranges' = mset ranges \<longrightarrow> mergeRanges ranges' = mergeRanges ranges)"
proof -
  note sp = mergeRanges_separated_points [OF assms]
  have "\<forall>cover. points cover = points ranges \<longrightarrow> length (mergeRanges ranges) \<le> length cover"
    using sp by (auto intro: separated_minimal)
  moreover have "\<forall>p\<in>set ranges. \<forall>q\<in>set ranges. touching p q \<longrightarrow>
          (\<exists>r\<in>set (mergeRanges ranges). fst r \<le> min (fst p) (fst q) \<and> max (snd p) (snd q) \<le> snd r)"
    using mergeRanges_joins_touching [OF assms(1) _ _ _ assms(2)] by blast
  moreover have "\<forall>p q. fst p \<le> snd p \<and> fst q \<le> snd q \<and> safe_ranges [p, q] \<longrightarrow>
          (length (mergeRanges [p, q]) = 1) = touching p q"
    using mergeRanges_two by blast
  moreover have "\<forall>ranges'. mset ranges' = mset ranges \<longrightarrow> mergeRanges ranges' = mergeRanges ranges"
    using mergeRanges_order_independent [OF assms(1) _ assms(2)] by blast
  ultimately show ?thesis
    using sp separated_sorted [of "mergeRanges ranges"] by blast
qed

lemma safe_integer_numeral [simp]:
  "safe_integer 1" "safe_integer 2" "safe_integer 3" "safe_integer 6" "safe_integer 8"
  "safe_integer 10" "safe_integer 15" "safe_integer 18"
  by (simp_all add: safe_integer_def)

lemma mergeRanges_example:
  "mergeRanges [(1, 3), (2, 6), (8, 10), (15, 18)] = [(1, 6), (8, 10), (15, 18)]"
  by (simp add: mergeRanges_def js_add_one_safe)

theorem mergeRanges_minimal_cover_witness:
  "well_formed [(1, 3), (2, 6), (8, 10), (15, 18)]
   \<and> safe_ranges [(1, 3), (2, 6), (8, 10), (15, 18)]
   \<and> mergeRanges [(1, 3), (2, 6), (8, 10), (15, 18)] = [(1, 6), (8, 10), (15, 18)]
   \<and> points [(1, 6), (8, 10), (15, 18)] = points [(1, 3), (2, 6), (8, 10), (15, 18)]
   \<and> separated [(1, 6), (8, 10), (15, 18)]
   \<and> mergeRanges [(15, 18), (2, 6), (8, 10), (1, 3)] = [(1, 6), (8, 10), (15, 18)]"
proof -
  have wf: "well_formed [(1, 3), (2, 6), (8, 10), (15, 18)]" by simp
  have sf: "safe_ranges [(1, 3), (2, 6), (8, 10), (15, 18)]" by simp
  have e: "mergeRanges [(1, 3), (2, 6), (8, 10), (15, 18)] = [(1, 6), (8, 10), (15, 18)]"
    by (simp add: mergeRanges_def js_add_one_safe)
  have m: "mset [(15, 18), (2, 6), (8, 10), (1, 3 :: int)] = mset [(1, 3), (2, 6), (8, 10), (15 :: int, 18 :: int)]"
    by simp
  from mergeRanges_minimal_cover [OF wf sf] m show ?thesis
    unfolding e using wf sf by blast
qed

text \<open>
  A pair with its start after its end is not an interval; on such pairs the result can
  depend on the order.
\<close>

lemma mergeRanges_needs_well_formed:
  "mergeRanges [(1, 0), (1, - 5)] \<noteq> mergeRanges [(1, - 5), (1, 0)]"
  by (simp add: mergeRanges_def js_add_exact)

section \<open>mergeRanges on the store\<close>

lemma map_nth_update_last:
  assumes "distinct merged" and "merged \<noteq> []" and "last merged < length h"
  shows "map ((!) (h[last merged := v])) merged = (map ((!) h) merged)[length merged - 1 := v]"
proof -
  from assms(2) obtain ms l where m: "merged = ms @ [l]" by (cases merged rule: rev_cases) auto
  with assms(1) have "l \<notin> set ms" by simp
  then have "h[l := v] ! x = h ! x" if "x \<in> set ms" for x
    using that by (intro nth_list_update_neq) auto
  then have "map ((!) (h[l := v])) ms = map ((!) h) ms" by (intro map_cong refl)
  with m assms(3) show ?thesis by (simp add: list_update_append)
qed

lemma merge_loop_store_refines:
  assumes "distinct (merged @ rest)" and "merged \<noteq> []"
    and "\<forall>r\<in>set (merged @ rest). r < length h"
  shows "map ((!) (snd (merge_loop_store rest merged h))) (fst (merge_loop_store rest merged h))
           = merge_loop (map ((!) h) rest) (map ((!) h) merged)
       \<and> (\<forall>a<length h. a \<noteq> last merged \<longrightarrow> snd (merge_loop_store rest merged h) ! a = h ! a)"
  using assms
proof (induction rest arbitrary: merged h)
  case Nil
  then show ?case by simp
next
  case (Cons r rest)
  obtain s e where r: "h ! r = (s, e)" by (cases "h ! r")
  define l where "l = last merged"
  have "l \<in> set merged" using Cons.prems(2) by (simp add: l_def)
  with Cons.prems have l: "l \<in> set merged" "l < length h" "l \<noteq> r" "l \<notin> set rest"
    and rr: "r < length h" "r \<notin> set rest"
    by auto
  have lastv: "last (map ((!) h) merged) = h ! l"
    using Cons.prems(2) by (simp add: l_def last_map)
  show ?case
  proof (cases "s \<le> js_add (snd (h ! l)) 1")
    case True
    define v where "v = (fst (h ! l), max (snd (h ! l)) e)"
    define h1 where "h1 = h[l := v]"
    have step: "merge_loop_store (r # rest) merged h = merge_loop_store rest merged h1"
      using True r by (simp add: l_def [symmetric] h1_def v_def)
    have pstep: "merge_loop (map ((!) h) (r # rest)) (map ((!) h) merged)
        = merge_loop (map ((!) h) rest) ((map ((!) h) merged)[length merged - 1 := v])"
      using True r lastv by (simp add: v_def)
    have d: "distinct (merged @ rest)" using Cons.prems(1) by simp
    have b: "\<forall>q\<in>set (merged @ rest). q < length h1" using Cons.prems(3) by (simp add: h1_def)
    have vals: "map ((!) h1) merged = (map ((!) h) merged)[length merged - 1 := v]"
      unfolding h1_def l_def using Cons.prems l(2) by (intro map_nth_update_last) (auto simp: l_def)
    have rest_vals: "map ((!) h1) rest = map ((!) h) rest"
    proof (intro map_cong refl)
      fix x assume "x \<in> set rest"
      with l(4) have "l \<noteq> x" by auto
      then show "h1 ! x = h ! x" unfolding h1_def by (rule nth_list_update_neq)
    qed
    from Cons.IH [OF d Cons.prems(2) b]
    have "map ((!) (snd (merge_loop_store rest merged h1))) (fst (merge_loop_store rest merged h1))
           = merge_loop (map ((!) h1) rest) (map ((!) h1) merged)"
      and fr: "\<forall>a<length h1. a \<noteq> last merged \<longrightarrow> snd (merge_loop_store rest merged h1) ! a = h1 ! a"
      by simp_all
    then show ?thesis
      unfolding step pstep vals rest_vals by (auto simp: h1_def l_def)
  next
    case False
    define h1 where "h1 = h @ [(s, e)]"
    define m1 where "m1 = merged @ [length h]"
    have step: "merge_loop_store (r # rest) merged h = merge_loop_store rest m1 h1"
      using False r by (simp add: l_def [symmetric] h1_def m1_def)
    have pstep: "merge_loop (map ((!) h) (r # rest)) (map ((!) h) merged)
        = merge_loop (map ((!) h) rest) (map ((!) h) merged @ [(s, e)])"
      using False r lastv by simp
    have d: "distinct (m1 @ rest)" using Cons.prems(1,3) by (auto simp: m1_def)
    have b: "\<forall>q\<in>set (m1 @ rest). q < length h1"
      using Cons.prems(3) by (fastforce simp: h1_def m1_def less_Suc_eq)
    have ne: "m1 \<noteq> []" by (simp add: m1_def)
    have vals: "map ((!) h1) m1 = map ((!) h) merged @ [(s, e)]"
      using Cons.prems(3) by (auto simp: h1_def m1_def nth_append)
    have rest_vals: "map ((!) h1) rest = map ((!) h) rest"
      using Cons.prems(3) by (auto simp: h1_def nth_append)
    from Cons.IH [OF d ne b]
    have "map ((!) (snd (merge_loop_store rest m1 h1))) (fst (merge_loop_store rest m1 h1))
           = merge_loop (map ((!) h1) rest) (map ((!) h1) m1)"
      and fr: "\<forall>a<length h1. a \<noteq> last m1 \<longrightarrow> snd (merge_loop_store rest m1 h1) ! a = h1 ! a"
      by simp_all
    then show ?thesis
      unfolding step pstep vals rest_vals by (auto simp: h1_def m1_def nth_append)
  qed
qed

lemma map_insort_key:
  "map f (insort_key (\<lambda>r. g (f r)) x xs) = insort_key g (f x) (map f xs)"
  by (induction xs) auto

lemma map_sort_key: "map f (sort_key (\<lambda>r. g (f r)) xs) = sort_key g (map f xs)"
  by (induction xs) (auto simp: map_insort_key)

text \<open>
  On distinct references into the store, what \<open>mergeRanges_store\<close> returns refers to the
  ranges that \<open>mergeRanges\<close> computes from the ranges of its argument.
\<close>

lemma mergeRanges_store_refines:
  assumes "distinct ranges" and "\<forall>r\<in>set ranges. r < length h"
  shows "map ((!) (snd (mergeRanges_store ranges h))) (fst (mergeRanges_store ranges h))
           = mergeRanges (map ((!) h) ranges)"
proof (cases "ranges = []")
  case True
  then show ?thesis by (simp add: mergeRanges_store_def mergeRanges_def)
next
  case False
  define srt where "srt = sort_key (\<lambda>r. fst (h ! r)) ranges"
  have "length srt = length ranges" by (simp add: srt_def)
  with False have "srt \<noteq> []" by auto
  with assms(1) have s: "set srt = set ranges" "distinct srt" "srt \<noteq> []"
    by (simp_all add: srt_def)
  then obtain x t where xt: "srt = x # t" by (cases srt) auto
  have m: "map ((!) h) srt = sort_key fst (map ((!) h) ranges)"
    unfolding srt_def by (rule map_sort_key)
  have d: "distinct ([x] @ t)" using s(2) xt by simp
  have b: "\<forall>r\<in>set ([x] @ t). r < length h" using assms(2) s(1) xt by auto
  from merge_loop_store_refines [OF d _ b]
  have "map ((!) (snd (merge_loop_store t [x] h))) (fst (merge_loop_store t [x] h))
           = merge_loop (map ((!) h) t) (map ((!) h) [x])"
    by simp
  moreover have "mergeRanges_store ranges h = merge_loop_store t [x] h"
    using False xt unfolding mergeRanges_store_def srt_def [symmetric] by simp
  moreover have "mergeRanges (map ((!) h) ranges) = merge_loop (map ((!) h) t) (map ((!) h) [x])"
    using False xt unfolding mergeRanges_def m [symmetric] by simp
  ultimately show ?thesis by simp
qed

lemma mergeRanges_store_example:
  "mergeRanges_store [0, 1] [(1, 3), (2, 6)] = ([0], [(1, 6), (2, 6)])"
  by (simp add: mergeRanges_store_def js_add_exact)

section \<open>Heap's algorithm: the loop computes the recursion\<close>

lemma length_swap_elems [simp]: "length (swap_elems A i k) = length A"
  by (simp add: swap_elems_def)

lemma heap_rec_length:
  "length (snd (heap_rec m A)) = length A"
  "length (snd (heap_blocks m n A)) = length A"
  by (induction m A and m n A rule: heap_rec_heap_blocks.induct)
     (auto simp: Let_def split: prod.splits)

lemma heap_loop_exit: "heap_loop len A c len res = Some (res, A)"
  by (subst heap_loop.simps) simp

lemma heap_loop_carry:
  "i < len \<Longrightarrow> \<not> c ! i < i \<Longrightarrow> heap_loop len A c i res = heap_loop len A (c[i := 0]) (Suc i) res"
  by (subst heap_loop.simps) simp

lemma heap_loop_swap:
  "i < len \<Longrightarrow> c ! i < i \<Longrightarrow>
   heap_loop len A c i res =
     heap_loop len (swap_elems A i (if i mod 2 \<noteq> 0 then c ! i else 0)) (c[i := Suc (c ! i)]) 0
       (res @ [swap_elems A i (if i mod 2 \<noteq> 0 then c ! i else 0)])"
  by (subst heap_loop.simps) (simp add: Let_def)

lemma heap_loop_sim:
  "\<forall>c res. m \<le> length A \<and> length c = length A \<and> (\<forall>j<m. c ! j = 0) \<longrightarrow>
     heap_loop (length A) A c 0 res
       = heap_loop (length A) (snd (heap_rec m A)) c m (res @ fst (heap_rec m A))"
  "\<forall>c res. m < length A \<and> n \<le> m \<and> length c = length A \<and> (\<forall>j<m. c ! j = 0) \<and> c ! m = m - n \<longrightarrow>
     heap_loop (length A) A c m res
       = heap_loop (length A) (snd (heap_blocks m n A)) (c[m := 0]) (Suc m) (res @ fst (heap_blocks m n A))"
proof (induction m A and m n A rule: heap_rec_heap_blocks.induct)
  case (1 A)
  show ?case by simp
next
  case (2 m A)
  obtain o1 A1 where r: "heap_rec m A = (o1, A1)" by (cases "heap_rec m A")
  obtain o2 A2 where b: "heap_blocks m m A1 = (o2, A2)" by (cases "heap_blocks m m A1")
  have len1: "length A1 = length A" using heap_rec_length(1) [of m A] r by simp
  show ?case
  proof (intro allI impI)
    fix c :: "nat list" and res :: "'a list list"
    assume a: "Suc m \<le> length A \<and> length c = length A \<and> (\<forall>j<Suc m. c ! j = 0)"
    then have cm: "c ! m = 0" and z: "\<forall>j<m. c ! j = 0" by auto
    have "heap_loop (length A) A c 0 res = heap_loop (length A) A1 c m (res @ o1)"
      using "2.IH"(1) a z r by simp
    also have "\<dots> = heap_loop (length A) A2 (c[m := 0]) (Suc m) ((res @ o1) @ o2)"
      using "2.IH"(2) [OF r [symmetric] refl] a z cm len1 b by simp
    also have "c[m := 0] = c" using cm by (metis list_update_id)
    finally show "heap_loop (length A) A c 0 res
       = heap_loop (length A) (snd (heap_rec (Suc m) A)) c (Suc m) (res @ fst (heap_rec (Suc m) A))"
      using r b by simp
  qed
next
  case (3 m A)
  show ?case by (auto simp: heap_loop_carry)
next
  case (4 m n A)
  define A' where "A' = swap_elems A m (if m mod 2 \<noteq> 0 then m - Suc n else 0)"
  obtain o1 A1 where r: "heap_rec m A' = (o1, A1)" by (cases "heap_rec m A'")
  obtain o2 A2 where b: "heap_blocks m n A1 = (o2, A2)" by (cases "heap_blocks m n A1")
  have hb: "heap_blocks m (Suc n) A = (A' # o1 @ o2, A2)"
    unfolding heap_blocks.simps Let_def A'_def [symmetric] r using b by simp
  have len': "length A' = length A" by (simp add: A'_def)
  have len1: "length A1 = length A" using heap_rec_length(1) [of m A'] r len' by simp
  show ?case
  proof (intro allI impI)
    fix c :: "nat list" and res :: "'a list list"
    assume a: "m < length A \<and> Suc n \<le> m \<and> length c = length A \<and> (\<forall>j<m. c ! j = 0)
        \<and> c ! m = m - Suc n"
    define c' where "c' = c[m := Suc (c ! m)]"
    have c': "length c' = length A" "\<forall>j<m. c' ! j = 0" "c' ! m = m - n"
      using a by (auto simp: c'_def)
    have "heap_loop (length A) A c m res = heap_loop (length A) A' c' 0 (res @ [A'])"
      using a by (simp add: heap_loop_swap A'_def c'_def)
    also have "\<dots> = heap_loop (length A) A1 c' m ((res @ [A']) @ o1)"
      using "4.IH"(1) [OF A'_def] a c' len' r by simp
    also have "\<dots> = heap_loop (length A) A2 (c'[m := 0]) (Suc m) (((res @ [A']) @ o1) @ o2)"
      using "4.IH"(2) [OF A'_def r [symmetric] refl] a c' len1 b by simp
    also have "c'[m := 0] = c[m := 0]" by (simp add: c'_def)
    finally show "heap_loop (length A) A c m res
       = heap_loop (length A) (snd (heap_blocks m (Suc n) A)) (c[m := 0]) (Suc m)
           (res @ fst (heap_blocks m (Suc n) A))"
      unfolding hb by simp
  qed
qed

lemma heap_loop_total:
  "heap_loop (length A) A (replicate (length A) 0) 0 [A]
     = Some (heap_all (length A) A, snd (heap_rec (length A) A))"
  using heap_loop_sim(1) [of "length A" A]
  by (simp add: heap_loop_exit heap_all_def)

lemma getPermutations_small:
  assumes "length A \<le> 8"
  shows "getPermutations A = Some (heap_all (length A) A, snd (heap_rec (length A) A))"
proof (cases "length A \<le> 1")
  case True
  have "heap_rec (length A) A = ([], A)"
  proof (cases "length A")
    case 0
    then show ?thesis by simp
  next
    case (Suc k)
    with True have "k = 0" by simp
    with Suc show ?thesis by simp
  qed
  with True show ?thesis
    by (simp add: getPermutations.simps heap_all_def)
next
  case False
  with assms show ?thesis
    by (simp add: getPermutations.simps heap_loop_total)
qed

section \<open>Heap's algorithm: the arrays each level ends with\<close>

lemma heap_final_Suc:
  "snd (heap_rec (Suc m) A) = snd (heap_blocks m m (snd (heap_rec m A)))"
  by (simp add: Let_def case_prod_beta)

lemma heap_final_blocks:
  "snd (heap_blocks m (Suc n) A)
     = snd (heap_blocks m n (snd (heap_rec m (swap_elems A m (if m mod 2 \<noteq> 0 then m - Suc n else 0)))))"
  by (simp add: Let_def case_prod_beta)

lemma heap_final_blocks_0: "snd (heap_blocks m 0 A) = A"
  by simp

lemma heap_final_0: "snd (heap_rec 0 A) = A"
  by simp

lemmas heap_final_simps = heap_final_0 heap_final_Suc heap_final_blocks heap_final_blocks_0

text \<open>
  The array that level \<open>m\<close> leaves, for each level below 8: an odd level exchanges the
  first and the last of its elements; an even level does more.
\<close>

lemma heap_final_1:
  "snd (heap_rec (Suc 0) (a0 # r)) = a0 # r"
  by (simp add: heap_final_simps swap_elems_def  del: heap_rec.simps heap_blocks.simps)

lemma heap_final_2:
  "snd (heap_rec (Suc (Suc 0)) (a0 # a1 # r)) = a1 # a0 # r"
  by (simp add: heap_final_simps swap_elems_def heap_final_1 del: heap_rec.simps heap_blocks.simps)

lemma heap_final_3:
  "snd (heap_rec (Suc (Suc (Suc 0))) (a0 # a1 # a2 # r)) = a2 # a1 # a0 # r"
  by (simp add: heap_final_simps swap_elems_def heap_final_1 heap_final_2 del: heap_rec.simps heap_blocks.simps)

lemma heap_final_4:
  "snd (heap_rec (Suc (Suc (Suc (Suc 0)))) (a0 # a1 # a2 # a3 # r)) = a1 # a2 # a3 # a0 # r"
  by (simp add: heap_final_simps swap_elems_def heap_final_1 heap_final_2 heap_final_3 del: heap_rec.simps heap_blocks.simps)

lemma heap_final_5:
  "snd (heap_rec (Suc (Suc (Suc (Suc (Suc 0))))) (a0 # a1 # a2 # a3 # a4 # r)) = a4 # a1 # a2 # a3 # a0 # r"
  by (simp add: heap_final_simps swap_elems_def heap_final_1 heap_final_2 heap_final_3 heap_final_4 del: heap_rec.simps heap_blocks.simps)

lemma heap_final_6:
  "snd (heap_rec (Suc (Suc (Suc (Suc (Suc (Suc 0)))))) (a0 # a1 # a2 # a3 # a4 # a5 # r)) = a3 # a4 # a1 # a2 # a5 # a0 # r"
  by (simp add: heap_final_simps swap_elems_def heap_final_1 heap_final_2 heap_final_3 heap_final_4 heap_final_5 del: heap_rec.simps heap_blocks.simps)

lemma heap_final_7:
  "snd (heap_rec (Suc (Suc (Suc (Suc (Suc (Suc (Suc 0))))))) (a0 # a1 # a2 # a3 # a4 # a5 # a6 # r)) = a6 # a1 # a2 # a3 # a4 # a5 # a0 # r"
  by (simp add: heap_final_simps swap_elems_def heap_final_1 heap_final_2 heap_final_3 heap_final_4 heap_final_5 heap_final_6 del: heap_rec.simps heap_blocks.simps)

lemmas heap_finals = heap_final_1 heap_final_2 heap_final_3 heap_final_4 heap_final_5 heap_final_6 heap_final_7

section \<open>Heap's algorithm: the rounds of a level start with different last elements\<close>

text \<open>
  At level \<open>m + 1\<close> the element at index \<open>m\<close> stays where it is during a round of level
  \<open>m\<close>, and the \<open>m + 1\<close> rounds start with \<open>m + 1\<close> different elements there. This is where
  the proof follows the code level by level: the levels below 8 are the ones the code
  uses.
\<close>

lemma heap_starts_distinct_0:
  assumes "Suc 0 \<le> length A" and "distinct A"
  shows "distinct (map (\<lambda>S. S ! (0)) (heap_starts (0) A))"
proof -
  from assms(1) obtain a0 r where A: "A = a0 # r"
    by (auto simp: Suc_le_length_iff)
  from assms(2) show ?thesis
    unfolding A
    by (auto simp add: heap_starts_def Let_def swap_elems_def heap_final_0 heap_finals
        simp del: heap_rec.simps heap_blocks.simps)
qed

lemma heap_starts_distinct_1:
  assumes "Suc (Suc 0) \<le> length A" and "distinct A"
  shows "distinct (map (\<lambda>S. S ! (Suc 0)) (heap_starts (Suc 0) A))"
proof -
  from assms(1) obtain a0 a1 r where A: "A = a0 # a1 # r"
    by (auto simp: Suc_le_length_iff)
  from assms(2) show ?thesis
    unfolding A
    by (auto simp add: heap_starts_def Let_def swap_elems_def heap_final_0 heap_finals
        simp del: heap_rec.simps heap_blocks.simps)
qed

lemma heap_starts_distinct_2:
  assumes "Suc (Suc (Suc 0)) \<le> length A" and "distinct A"
  shows "distinct (map (\<lambda>S. S ! (Suc (Suc 0))) (heap_starts (Suc (Suc 0)) A))"
proof -
  from assms(1) obtain a0 a1 a2 r where A: "A = a0 # a1 # a2 # r"
    by (auto simp: Suc_le_length_iff)
  from assms(2) show ?thesis
    unfolding A
    by (auto simp add: heap_starts_def Let_def swap_elems_def heap_final_0 heap_finals
        simp del: heap_rec.simps heap_blocks.simps)
qed

lemma heap_starts_distinct_3:
  assumes "Suc (Suc (Suc (Suc 0))) \<le> length A" and "distinct A"
  shows "distinct (map (\<lambda>S. S ! (Suc (Suc (Suc 0)))) (heap_starts (Suc (Suc (Suc 0))) A))"
proof -
  from assms(1) obtain a0 a1 a2 a3 r where A: "A = a0 # a1 # a2 # a3 # r"
    by (auto simp: Suc_le_length_iff)
  from assms(2) show ?thesis
    unfolding A
    by (auto simp add: heap_starts_def Let_def swap_elems_def heap_final_0 heap_finals
        simp del: heap_rec.simps heap_blocks.simps)
qed

lemma heap_starts_distinct_4:
  assumes "Suc (Suc (Suc (Suc (Suc 0)))) \<le> length A" and "distinct A"
  shows "distinct (map (\<lambda>S. S ! (Suc (Suc (Suc (Suc 0))))) (heap_starts (Suc (Suc (Suc (Suc 0)))) A))"
proof -
  from assms(1) obtain a0 a1 a2 a3 a4 r where A: "A = a0 # a1 # a2 # a3 # a4 # r"
    by (auto simp: Suc_le_length_iff)
  from assms(2) show ?thesis
    unfolding A
    by (auto simp add: heap_starts_def Let_def swap_elems_def heap_final_0 heap_finals
        simp del: heap_rec.simps heap_blocks.simps)
qed

lemma heap_starts_distinct_5:
  assumes "Suc (Suc (Suc (Suc (Suc (Suc 0))))) \<le> length A" and "distinct A"
  shows "distinct (map (\<lambda>S. S ! (Suc (Suc (Suc (Suc (Suc 0)))))) (heap_starts (Suc (Suc (Suc (Suc (Suc 0))))) A))"
proof -
  from assms(1) obtain a0 a1 a2 a3 a4 a5 r where A: "A = a0 # a1 # a2 # a3 # a4 # a5 # r"
    by (auto simp: Suc_le_length_iff)
  from assms(2) show ?thesis
    unfolding A
    by (auto simp add: heap_starts_def Let_def swap_elems_def heap_final_0 heap_finals
        simp del: heap_rec.simps heap_blocks.simps)
qed

lemma heap_starts_distinct_6:
  assumes "Suc (Suc (Suc (Suc (Suc (Suc (Suc 0)))))) \<le> length A" and "distinct A"
  shows "distinct (map (\<lambda>S. S ! (Suc (Suc (Suc (Suc (Suc (Suc 0))))))) (heap_starts (Suc (Suc (Suc (Suc (Suc (Suc 0)))))) A))"
proof -
  from assms(1) obtain a0 a1 a2 a3 a4 a5 a6 r where A: "A = a0 # a1 # a2 # a3 # a4 # a5 # a6 # r"
    by (auto simp: Suc_le_length_iff)
  from assms(2) show ?thesis
    unfolding A
    by (auto simp add: heap_starts_def Let_def swap_elems_def heap_final_0 heap_finals
        simp del: heap_rec.simps heap_blocks.simps)
qed

lemma heap_starts_distinct_7:
  assumes "Suc (Suc (Suc (Suc (Suc (Suc (Suc (Suc 0))))))) \<le> length A" and "distinct A"
  shows "distinct (map (\<lambda>S. S ! (Suc (Suc (Suc (Suc (Suc (Suc (Suc 0)))))))) (heap_starts (Suc (Suc (Suc (Suc (Suc (Suc (Suc 0))))))) A))"
proof -
  from assms(1) obtain a0 a1 a2 a3 a4 a5 a6 a7 r where A: "A = a0 # a1 # a2 # a3 # a4 # a5 # a6 # a7 # r"
    by (auto simp: Suc_le_length_iff)
  from assms(2) show ?thesis
    unfolding A
    by (auto simp add: heap_starts_def Let_def swap_elems_def heap_final_0 heap_finals
        simp del: heap_rec.simps heap_blocks.simps)
qed

lemma heap_starts_distinct:
  assumes "m < 8" and "m < length A" and "distinct A"
  shows "distinct (map (\<lambda>S. S ! m) (heap_starts m A))"
proof -
  from assms(1) consider "m = 0" | "m = Suc 0" | "m = Suc (Suc 0)" | "m = Suc (Suc (Suc 0))" | "m = Suc (Suc (Suc (Suc 0)))" | "m = Suc (Suc (Suc (Suc (Suc 0))))" | "m = Suc (Suc (Suc (Suc (Suc (Suc 0)))))" | "m = Suc (Suc (Suc (Suc (Suc (Suc (Suc 0))))))"
    by linarith
  then show ?thesis
  proof cases
    case 1
    with assms(2,3) show ?thesis using heap_starts_distinct_0 [of A] by (simp add: Suc_le_eq)
  next
    case 2
    with assms(2,3) show ?thesis using heap_starts_distinct_1 [of A] by (simp add: Suc_le_eq)
  next
    case 3
    with assms(2,3) show ?thesis using heap_starts_distinct_2 [of A] by (simp add: Suc_le_eq)
  next
    case 4
    with assms(2,3) show ?thesis using heap_starts_distinct_3 [of A] by (simp add: Suc_le_eq)
  next
    case 5
    with assms(2,3) show ?thesis using heap_starts_distinct_4 [of A] by (simp add: Suc_le_eq)
  next
    case 6
    with assms(2,3) show ?thesis using heap_starts_distinct_5 [of A] by (simp add: Suc_le_eq)
  next
    case 7
    with assms(2,3) show ?thesis using heap_starts_distinct_6 [of A] by (simp add: Suc_le_eq)
  next
    case 8
    with assms(2,3) show ?thesis using heap_starts_distinct_7 [of A] by (simp add: Suc_le_eq)
  qed
qed

section \<open>Heap's algorithm: every permutation once\<close>

lemma heap_blocks_outputs:
  "fst (heap_blocks m n A) = concat (map (heap_all m) (block_starts m n A))"
  by (induction n arbitrary: A) (simp_all add: Let_def case_prod_beta heap_all_def)

lemma heap_all_Suc: "heap_all (Suc m) A = concat (map (heap_all m) (heap_starts m A))"
  by (simp add: heap_all_def heap_starts_def Let_def case_prod_beta heap_blocks_outputs)

lemma length_block_starts [simp]: "length (block_starts m n A) = n"
  by (induction n arbitrary: A) (simp_all add: Let_def)

lemma length_heap_starts [simp]: "length (heap_starts m A) = Suc m"
  by (simp add: heap_starts_def)

lemma swap_elems_preserves:
  assumes "k \<le> m" and "m < length A"
  shows "mset (swap_elems A m k) = mset A"
    and "drop (Suc m) (swap_elems A m k) = drop (Suc m) A"
  using assms by (simp_all add: swap_elems_def mset_swap)

lemma heap_rec_preserves:
  "m \<le> length A \<longrightarrow>
     mset (snd (heap_rec m A)) = mset A \<and> drop m (snd (heap_rec m A)) = drop m A"
  "m < length A \<and> n \<le> m \<longrightarrow>
     mset (snd (heap_blocks m n A)) = mset A
     \<and> drop (Suc m) (snd (heap_blocks m n A)) = drop (Suc m) A"
proof (induction m A and m n A rule: heap_rec_heap_blocks.induct)
  case (1 A)
  show ?case by simp
next
  case (2 m A)
  show ?case
  proof
    assume a: "Suc m \<le> length A"
    define A1 where "A1 = snd (heap_rec m A)"
    have 1: "mset A1 = mset A" "drop m A1 = drop m A"
      using "2.IH"(1) a by (simp_all add: A1_def)
    then have l1: "length A1 = length A" by (metis size_mset)
    have "mset (snd (heap_blocks m m A1)) = mset A1
        \<and> drop (Suc m) (snd (heap_blocks m m A1)) = drop (Suc m) A1"
      using "2.IH"(2) [of "heap_rec m A" "fst (heap_rec m A)" A1] a l1 by (simp add: A1_def)
    moreover have "drop (Suc m) A1 = drop (Suc m) A"
      using 1(2) by (metis drop_Suc drop_tl tl_drop)
    ultimately show "mset (snd (heap_rec (Suc m) A)) = mset A
        \<and> drop (Suc m) (snd (heap_rec (Suc m) A)) = drop (Suc m) A"
      using 1 by (simp add: heap_final_Suc A1_def del: heap_rec.simps)
  qed
next
  case (3 m A)
  show ?case by simp
next
  case (4 m n A)
  show ?case
  proof
    assume a: "m < length A \<and> Suc n \<le> m"
    define k where "k = (if m mod 2 \<noteq> 0 then m - Suc n else 0)"
    define A' where "A' = swap_elems A m k"
    define A1 where "A1 = snd (heap_rec m A')"
    have k: "k \<le> m" by (simp add: k_def)
    have 0: "mset A' = mset A" "drop (Suc m) A' = drop (Suc m) A" "length A' = length A"
      using swap_elems_preserves [OF k, of A] a by (simp_all add: A'_def)
    have 1: "mset A1 = mset A'" "drop m A1 = drop m A'"
      using "4.IH"(1) [of A'] a 0 by (simp_all add: A1_def A'_def k_def)
    then have l1: "length A1 = length A'" by (metis size_mset)
    have d1: "drop (Suc m) A1 = drop (Suc m) A'"
      using 1(2) by (metis drop_Suc drop_tl tl_drop)
    have "mset (snd (heap_blocks m n A1)) = mset A1
        \<and> drop (Suc m) (snd (heap_blocks m n A1)) = drop (Suc m) A1"
      using "4.IH"(2) [of A' "heap_rec m A'" "fst (heap_rec m A')" A1] a 0 l1
      by (simp add: A1_def A'_def k_def)
    then show "mset (snd (heap_blocks m (Suc n) A)) = mset A
        \<and> drop (Suc m) (snd (heap_blocks m (Suc n) A)) = drop (Suc m) A"
      using 0 1 d1
      by (simp add: heap_final_blocks A1_def A'_def k_def del: heap_rec.simps heap_blocks.simps)
  qed
qed

lemma block_starts_preserve:
  assumes "m < length A" and "n \<le> m" and "S \<in> set (block_starts m n A)"
  shows "mset S = mset A \<and> drop (Suc m) S = drop (Suc m) A"
  using assms
proof (induction n arbitrary: A)
  case 0
  then show ?case by simp
next
  case (Suc n)
  define k where "k = (if m mod 2 \<noteq> 0 then m - Suc n else 0)"
  define A' where "A' = swap_elems A m k"
  define A1 where "A1 = snd (heap_rec m A')"
  have k: "k \<le> m" by (simp add: k_def)
  have 0: "mset A' = mset A" "drop (Suc m) A' = drop (Suc m) A" "length A' = length A"
    using swap_elems_preserves [OF k, of A] Suc.prems(1) by (simp_all add: A'_def)
  have 1: "mset A1 = mset A'" "drop m A1 = drop m A'"
    using heap_rec_preserves(1) [of m A'] Suc.prems(1) 0 by (simp_all add: A1_def)
  then have l1: "length A1 = length A'" by (metis size_mset)
  have d1: "drop (Suc m) A1 = drop (Suc m) A'"
    using 1(2) by (metis drop_Suc drop_tl tl_drop)
  from Suc.prems(3) have "S = A' \<or> S \<in> set (block_starts m n A1)"
    by (simp add: Let_def A'_def A1_def k_def)
  then show ?case
  proof
    assume "S = A'"
    with 0 show ?thesis by simp
  next
    assume "S \<in> set (block_starts m n A1)"
    with Suc.IH [of A1] Suc.prems(1,2) 0 1 l1 d1 show ?thesis by simp
  qed
qed

lemma heap_starts_preserve:
  assumes "m < length A" and "S \<in> set (heap_starts m A)"
  shows "mset S = mset A \<and> drop (Suc m) S = drop (Suc m) A"
proof -
  define A1 where "A1 = snd (heap_rec m A)"
  have 1: "mset A1 = mset A" "drop m A1 = drop m A"
    using heap_rec_preserves(1) [of m A] assms(1) by (simp_all add: A1_def)
  then have l1: "length A1 = length A" by (metis size_mset)
  have d1: "drop (Suc m) A1 = drop (Suc m) A"
    using 1(2) by (metis drop_Suc drop_tl tl_drop)
  from assms(2) have "S = A \<or> S \<in> set (block_starts m m A1)"
    by (simp add: heap_starts_def A1_def)
  then show ?thesis
  proof
    assume "S = A"
    then show ?thesis by simp
  next
    assume "S \<in> set (block_starts m m A1)"
    with block_starts_preserve [of m A1 m S] assms(1) 1 l1 d1 show ?thesis by simp
  qed
qed

lemma drop_eq_nth:
  assumes "m < length q" and "length S = length q"
  shows "(drop m q = drop m S) = (q ! m = S ! m \<and> drop (Suc m) q = drop (Suc m) S)"
proof -
  have "drop m q = q ! m # drop (Suc m) q" "drop m S = S ! m # drop (Suc m) S"
    using assms by (simp_all add: Cons_nth_drop_Suc)
  then show ?thesis by simp
qed

lemma set_take_of_mset:
  assumes "mset S = mset A" and "drop k S = drop k A"
  shows "set (take k S) = set (take k A)"
proof -
  have "mset (take k S) + mset (drop k S) = mset (take k A) + mset (drop k A)"
    using assms(1) by (simp add: union_code)
  with assms(2) have "mset (take k S) = mset (take k A)" by simp
  then show ?thesis by (rule mset_eq_setD)
qed

lemma nth_in_take: "m < length S \<Longrightarrow> S ! m \<in> set (take (Suc m) S)"
  by (metis in_set_conv_nth length_take lessI min_less_iff_conj nth_take)

lemma heap_starts_cover:
  assumes "m < 8" and "m < length A" and "distinct A"
  shows "(\<lambda>S. S ! m) ` set (heap_starts m A) = set (take (Suc m) A)"
proof -
  let ?E = "map (\<lambda>S. S ! m) (heap_starts m A)"
  have d: "distinct ?E" using assms by (rule heap_starts_distinct)
  have sub: "set ?E \<subseteq> set (take (Suc m) A)"
  proof
    fix e assume "e \<in> set ?E"
    then obtain S where S: "S \<in> set (heap_starts m A)" "e = S ! m" by auto
    from heap_starts_preserve [OF assms(2) S(1)]
    have p: "mset S = mset A" "drop (Suc m) S = drop (Suc m) A" by simp_all
    then have "length S = length A" by (metis size_mset)
    with assms(2) have "S ! m \<in> set (take (Suc m) S)" by (simp add: nth_in_take)
    with set_take_of_mset [OF p] S(2) show "e \<in> set (take (Suc m) A)" by simp
  qed
  have "card (set ?E) = Suc m" using distinct_card [OF d] by simp
  moreover have "card (set (take (Suc m) A)) = Suc m"
    using assms(2,3) by (simp add: distinct_card)
  ultimately have "set ?E = set (take (Suc m) A)"
    using sub by (intro card_subset_eq) simp_all
  then show ?thesis by simp
qed

lemma heap_all_perms:
  assumes "m \<le> 8" and "m \<le> length A" and "distinct A"
  shows "distinct (heap_all m A)
     \<and> set (heap_all m A) = {q. mset q = mset A \<and> drop m q = drop m A}"
  using assms
proof (induction m arbitrary: A)
  case 0
  then show ?case by (auto simp: heap_all_def)
next
  case (Suc m)
  then have m: "m < 8" "m < length A" "m \<le> 8" by simp_all
  let ?starts = "heap_starts m A"
  have pres: "mset S = mset A \<and> drop (Suc m) S = drop (Suc m) A \<and> length S = length A \<and> distinct S"
    if "S \<in> set ?starts" for S
  proof -
    from heap_starts_preserve [OF m(2) that]
    have p: "mset S = mset A" "drop (Suc m) S = drop (Suc m) A" by simp_all
    then have "length S = length A" by (metis size_mset)
    moreover have "distinct S" using p(1) Suc.prems(3) by (metis distinct_count_atmost_1 set_mset_mset)
    ultimately show ?thesis using p by simp
  qed
  have ih: "distinct (heap_all m S)
      \<and> set (heap_all m S) = {q. mset q = mset A \<and> drop m q = drop m S}"
    if "S \<in> set ?starts" for S
    using Suc.IH [of S] pres [OF that] m by simp
  have dst: "distinct (map (\<lambda>S. S ! m) ?starts)"
    using m(1,2) Suc.prems(3) by (rule heap_starts_distinct)
  then have dstarts: "distinct ?starts" and inj: "inj_on (\<lambda>S. S ! m) (set ?starts)"
    by (simp_all add: distinct_map)
  have lenq: "length q = length A" if "mset q = mset A" for q :: "'a list"
    using that by (metis size_mset)
  have "set (heap_all (Suc m) A) = {q. mset q = mset A \<and> drop (Suc m) q = drop (Suc m) A}"
  proof (intro set_eqI iffI)
    fix q assume "q \<in> set (heap_all (Suc m) A)"
    then obtain S where S: "S \<in> set ?starts" "q \<in> set (heap_all m S)"
      by (auto simp: heap_all_Suc)
    with ih [OF S(1)] have q: "mset q = mset A" "drop m q = drop m S" by simp_all
    from q(2) have "drop (Suc m) q = drop (Suc m) S" by (metis drop_Suc drop_tl tl_drop)
    with pres [OF S(1)] q(1) show "q \<in> {q. mset q = mset A \<and> drop (Suc m) q = drop (Suc m) A}"
      by simp
  next
    fix q assume "q \<in> {q. mset q = mset A \<and> drop (Suc m) q = drop (Suc m) A}"
    then have q: "mset q = mset A" "drop (Suc m) q = drop (Suc m) A" by simp_all
    have lq: "m < length q" using lenq [OF q(1)] m(2) by simp
    then have "q ! m \<in> set (take (Suc m) q)" by (rule nth_in_take)
    with set_take_of_mset [OF q] have "q ! m \<in> set (take (Suc m) A)" by simp
    with heap_starts_cover [OF m(1,2) Suc.prems(3)]
    obtain S where S: "S \<in> set ?starts" "q ! m = S ! m" by auto
    have "drop m q = drop m S"
      using drop_eq_nth [OF lq, of S] pres [OF S(1)] lenq [OF q(1)] S(2) q(2) by simp
    with ih [OF S(1)] q(1) have "q \<in> set (heap_all m S)" by simp
    with S(1) show "q \<in> set (heap_all (Suc m) A)" by (auto simp: heap_all_Suc)
  qed
  moreover have "distinct (heap_all (Suc m) A)"
    unfolding heap_all_Suc
  proof (rule distinct_concat)
    have "inj_on (heap_all m) (set ?starts)"
      by (rule inj_onI) (simp add: heap_all_def)
    with dstarts show "distinct (map (heap_all m) ?starts)" by (simp add: distinct_map)
  next
    fix ys assume "ys \<in> set (map (heap_all m) ?starts)"
    then show "distinct ys" using ih by auto
  next
    fix ys zs
    assume a: "ys \<in> set (map (heap_all m) ?starts)" "zs \<in> set (map (heap_all m) ?starts)" "ys \<noteq> zs"
    then obtain S T where ST: "S \<in> set ?starts" "T \<in> set ?starts"
      "ys = heap_all m S" "zs = heap_all m T" by auto
    with a(3) have "S \<noteq> T" by auto
    with inj ST(1,2) have ne: "S ! m \<noteq> T ! m" by (auto dest: inj_onD)
    show "set ys \<inter> set zs = {}"
    proof (rule ccontr)
      assume "set ys \<inter> set zs \<noteq> {}"
      then obtain q where "q \<in> set ys" "q \<in> set zs" by auto
      with ih [OF ST(1)] ih [OF ST(2)] ST(3,4)
      have q: "mset q = mset A" "drop m q = drop m S" "drop m q = drop m T" by simp_all
      have lq: "m < length q" using lenq [OF q(1)] m(2) by simp
      from drop_eq_nth [OF lq, of S] drop_eq_nth [OF lq, of T] pres [OF ST(1)] pres [OF ST(2)]
        lenq [OF q(1)] q(2,3)
      have "q ! m = S ! m" "q ! m = T ! m" by simp_all
      with ne show False by simp
    qed
  qed
  ultimately show ?case by simp
qed

lemma length_heap_rec:
  "Suc (length (fst (heap_rec m A))) = fact m"
  "length (fst (heap_blocks m n A)) = n * fact m"
proof (induction m A and m n A rule: heap_rec_heap_blocks.induct)
  case (1 A)
  show ?case by simp
next
  case (2 m A)
  have "Suc (length (fst (heap_rec m A))) = fact m" by (rule "2.IH"(1))
  moreover have "length (fst (heap_blocks m m (snd (heap_rec m A)))) = m * fact m"
    using "2.IH"(2) [of "heap_rec m A" "fst (heap_rec m A)" "snd (heap_rec m A)"] by simp
  ultimately have "Suc (length (fst (heap_rec m A)) + length (fst (heap_blocks m m (snd (heap_rec m A)))))
      = fact m + m * fact m" by simp
  then show ?case by (simp add: Let_def case_prod_beta)
next
  case (3 m A)
  show ?case by simp
next
  case (4 m n A)
  define A' where "A' = swap_elems A m (if m mod 2 \<noteq> 0 then m - Suc n else 0)"
  have "Suc (length (fst (heap_rec m A'))) = fact m" using "4.IH"(1) by (simp add: A'_def)
  moreover have "length (fst (heap_blocks m n (snd (heap_rec m A')))) = n * fact m"
    using "4.IH"(2) [of A' "heap_rec m A'" "fst (heap_rec m A')" "snd (heap_rec m A')"]
    by (simp add: A'_def)
  ultimately have "Suc (length (fst (heap_rec m A')) + length (fst (heap_blocks m n (snd (heap_rec m A')))))
      = fact m + n * fact m" by simp
  then show ?case by (simp add: Let_def case_prod_beta A'_def)
qed

lemma length_heap_all: "length (heap_all m A) = fact m"
  using length_heap_rec(1) [of m A] by (simp add: heap_all_def)

text \<open>An array of at most 8 distinct elements: the branch of Heap's algorithm.\<close>

lemma getPermutations_small_perms:
  assumes "length A \<le> 8" and "distinct A"
  shows "\<exists>res fin. getPermutations A = Some (res, fin) \<and> distinct res
     \<and> set res = {q. mset q = mset A} \<and> length res = fact (length A)"
proof -
  from heap_all_perms [OF assms(1) order_refl assms(2)]
  have "distinct (heap_all (length A) A)"
    and "set (heap_all (length A) A) = {q. mset q = mset A \<and> drop (length A) q = drop (length A) A}"
    by simp_all
  moreover have "drop (length A) q = drop (length A) A" if "mset q = mset A" for q
  proof -
    from that have "length q = length A" by (metis size_mset)
    then show ?thesis by simp
  qed
  ultimately have "set (heap_all (length A) A) = {q. mset q = mset A}" by auto
  with \<open>distinct (heap_all (length A) A)\<close> getPermutations_small [OF assms(1)] length_heap_all [of "length A" A]
  show ?thesis by simp
qed

section \<open>getPermutations on longer arrays\<close>

lemma larger_loop_result:
  assumes "\<forall>j<length A. \<exists>fin. getPermutations (take j A @ drop (j + 1) A) = Some (R j, fin)"
    and "i \<le> length A"
  shows "larger_loop A i acc
     = Some (acc @ concat (map (\<lambda>j. map ((#) (A ! j)) (R j)) [i..<length A]))"
  using assms(2)
proof (induction "length A - i" arbitrary: i acc)
  case 0
  then have "i = length A" by simp
  then show ?case by (subst larger_loop.simps) simp
next
  case (Suc d)
  then have i: "i < length A" by simp
  with assms(1) obtain fin where g: "getPermutations (take i A @ drop (i + 1) A) = Some (R i, fin)"
    by blast
  have "larger_loop A i acc = larger_loop A (i + 1) (acc @ map ((#) (A ! i)) (R i))"
    using i g by (subst larger_loop.simps) simp
  also have "\<dots> = Some ((acc @ map ((#) (A ! i)) (R i))
       @ concat (map (\<lambda>j. map ((#) (A ! j)) (R j)) [i + 1..<length A]))"
    using Suc.hyps(2) i by (intro Suc.hyps(1)) simp_all
  finally have "larger_loop A i acc = Some ((acc @ map ((#) (A ! i)) (R i))
       @ concat (map (\<lambda>j. map ((#) (A ! j)) (R j)) [i + 1..<length A]))" .
  moreover have "[i..<length A] = i # [i + 1..<length A]" using i by (simp add: upt_conv_Cons)
  ultimately show ?case by simp
qed

lemma mset_remove_nth:
  assumes "j < length A"
  shows "add_mset (A ! j) (mset (take j A @ drop (j + 1) A)) = mset A"
proof -
  have "A = take j A @ A ! j # drop (Suc j) A" using assms by (rule id_take_nth_drop)
  then have "mset A = mset (take j A @ A ! j # drop (Suc j) A)" by simp
  then show ?thesis by simp
qed

lemma perms_by_head:
  assumes "distinct A"
  shows "(\<Union>j<length A. (#) (A ! j) ` {q. mset q = mset (take j A @ drop (j + 1) A)})
     = (if A = [] then {} else {q. mset q = mset A})"
proof (cases "A = []")
  case True
  then show ?thesis by simp
next
  case False
  have "(\<Union>j<length A. (#) (A ! j) ` {q. mset q = mset (take j A @ drop (j + 1) A)})
      = {q. mset q = mset A}"
  proof (intro set_eqI iffI)
    fix q assume "q \<in> (\<Union>j<length A. (#) (A ! j) ` {q. mset q = mset (take j A @ drop (j + 1) A)})"
    then obtain j q' where j: "j < length A" "q = A ! j # q'"
      "mset q' = mset (take j A @ drop (j + 1) A)" by auto
    with mset_remove_nth [OF j(1)] show "q \<in> {q. mset q = mset A}" by simp
  next
    fix q assume "q \<in> {q. mset q = mset A}"
    then have q: "mset q = mset A" by simp
    with False have "q \<noteq> []" by auto
    then obtain x q' where xq: "q = x # q'" by (cases q) auto
    with q have "x \<in> set A" by (metis list.set_intros(1) mset_eq_setD)
    then obtain j where j: "j < length A" "A ! j = x" by (auto simp: in_set_conv_nth)
    from q xq mset_remove_nth [OF j(1)] j(2)
    have "add_mset x (mset q') = add_mset x (mset (take j A @ drop (j + 1) A))" by simp
    then have "mset q' = mset (take j A @ drop (j + 1) A)" by simp
    with j xq show "q \<in> (\<Union>j<length A. (#) (A ! j) ` {q. mset q = mset (take j A @ drop (j + 1) A)})"
      by auto
  qed
  with False show ?thesis by simp
qed

lemma getPermutations_perms:
  assumes "distinct A"
  shows "\<exists>res fin. getPermutations A = Some (res, fin) \<and> distinct res
     \<and> set res = {q. mset q = mset A} \<and> length res = fact (length A)"
  using assms
proof (induction "length A" arbitrary: A rule: less_induct)
  case less
  show ?case
  proof (cases "length A \<le> 8")
    case True
    then show ?thesis using less.prems by (rule getPermutations_small_perms)
  next
    case False
    define n where "n = length A"
    define rem where "rem j = take j A @ drop (j + 1) A" for j
    have rem: "distinct (rem j)" "length (rem j) = n - 1" "length (rem j) < length A" if "j < n" for j
    proof -
      have "A = take j A @ A ! j # drop (Suc j) A" using that unfolding n_def by (rule id_take_nth_drop)
      then have "distinct (take j A @ A ! j # drop (Suc j) A)" using less.prems by simp
      then show "distinct (rem j)" by (simp add: rem_def)
      show "length (rem j) = n - 1" using that by (simp add: rem_def n_def)
      then show "length (rem j) < length A" using that by (simp add: n_def)
    qed
    have "\<forall>j. \<exists>res. j < n \<longrightarrow> (\<exists>fin. getPermutations (rem j) = Some (res, fin)) \<and> distinct res
        \<and> set res = {q. mset q = mset (rem j)} \<and> length res = fact (n - 1)"
    proof (intro allI)
      fix j
      show "\<exists>res. j < n \<longrightarrow> (\<exists>fin. getPermutations (rem j) = Some (res, fin)) \<and> distinct res
        \<and> set res = {q. mset q = mset (rem j)} \<and> length res = fact (n - 1)"
      proof (cases "j < n")
        case True
        from less.hyps [OF rem(3) rem(1), OF True True] rem(2) [OF True]
        show ?thesis by auto
      next
        case False
        then show ?thesis by simp
      qed
    qed
    then obtain R where R: "\<And>j. j < n \<Longrightarrow> (\<exists>fin. getPermutations (rem j) = Some (R j, fin))
        \<and> distinct (R j) \<and> set (R j) = {q. mset q = mset (rem j)} \<and> length (R j) = fact (n - 1)"
      by metis
    define res where "res = concat (map (\<lambda>j. map ((#) (A ! j)) (R j)) [0..<n])"
    have "larger_loop A 0 [] = Some ([] @ concat (map (\<lambda>j. map ((#) (A ! j)) (R j)) [0..<length A]))"
      using R by (intro larger_loop_result) (auto simp: rem_def n_def)
    then have g: "getPermutations A = Some (res, A)"
      using False
      by (subst getPermutations.simps, subst getPermutationsLarger.simps) (simp add: res_def n_def)
    have len: "length res = fact (length A)"
    proof -
      have m: "map (\<lambda>j. length (R j)) [0..<n] = map (\<lambda>j. fact (n - 1)) [0..<n]"
        using R by (intro map_cong refl) simp
      have "length res = sum_list (map (\<lambda>j. length (R j)) [0..<n])"
        by (simp add: res_def length_concat comp_def)
      also have "\<dots> = sum_list (map (\<lambda>j. fact (n - 1)) [0..<n])"
        by (simp only: m)
      also have "\<dots> = n * fact (n - 1)" by (simp add: sum_list_triv)
      also have "\<dots> = fact n" using False by (cases n) (simp_all add: n_def)
      finally show ?thesis by (simp add: n_def)
    qed
    have st: "set res = {q. mset q = mset A}"
    proof -
      have "set res = (\<Union>j<n. (#) (A ! j) ` set (R j))"
        by (auto simp: res_def)
      also have "\<dots> = (\<Union>j<n. (#) (A ! j) ` {q. mset q = mset (rem j)})"
        using R by auto
      also have "\<dots> = {q. mset q = mset A}"
        using perms_by_head [OF less.prems] False by (auto simp: rem_def n_def)
      finally show ?thesis .
    qed
    have ne: "R j \<noteq> []" if "j < n" for j
    proof -
      have "length (R j) = fact (n - 1)" using R [OF that] by simp
      then show ?thesis by (metis fact_nonzero length_0_conv)
    qed
    have ds: "distinct res"
      unfolding res_def
    proof (rule distinct_concat)
      have "inj_on (\<lambda>j. map ((#) (A ! j)) (R j)) (set [0..<n])"
      proof (rule inj_onI)
        fix j k assume jk: "j \<in> set [0..<n]" "k \<in> set [0..<n]"
          and eq: "map ((#) (A ! j)) (R j) = map ((#) (A ! k)) (R k)"
        from jk ne have "R j \<noteq> []" "R k \<noteq> []" by simp_all
        then obtain x xs y ys where "R j = x # xs" "R k = y # ys"
          by (metis list.exhaust)
        with eq have "A ! j = A ! k" by simp
        with less.prems jk show "j = k" by (simp add: nth_eq_iff_index_eq n_def)
      qed
      then show "distinct (map (\<lambda>j. map ((#) (A ! j)) (R j)) [0..<n])"
        by (simp add: distinct_map)
    next
      fix ys assume "ys \<in> set (map (\<lambda>j. map ((#) (A ! j)) (R j)) [0..<n])"
      then obtain j where "j < n" "ys = map ((#) (A ! j)) (R j)" by auto
      with R [of j] show "distinct ys" by (simp add: distinct_map)
    next
      fix ys zs
      assume a: "ys \<in> set (map (\<lambda>j. map ((#) (A ! j)) (R j)) [0..<n])"
        "zs \<in> set (map (\<lambda>j. map ((#) (A ! j)) (R j)) [0..<n])" "ys \<noteq> zs"
      then obtain j k where jk: "j < n" "k < n"
        "ys = map ((#) (A ! j)) (R j)" "zs = map ((#) (A ! k)) (R k)" by auto
      with a(3) have "j \<noteq> k" by auto
      with less.prems jk(1,2) have "A ! j \<noteq> A ! k" by (simp add: nth_eq_iff_index_eq n_def)
      with jk(3,4) show "set ys \<inter> set zs = {}" by auto
    qed
    from g ds st len show ?thesis by simp
  qed
qed

lemma getPermutations_example:
  "getPermutations [1, 2, 3 :: int]
     = Some ([[1, 2, 3], [2, 1, 3], [3, 1, 2], [1, 3, 2], [2, 3, 1], [3, 2, 1]], [3, 2, 1])"
  by code_simp

text \<open>
  Claim C7: for every array of distinct elements, \<open>getPermutations\<close> produces all \<open>n!\<close>
  orderings with each permutation present exactly once; for arrays longer than 8 elements
  it falls back to the slower recursive generator rather than refusing; in particular
  \<open>getPermutations([1,2,3])\<close> yields exactly the set of the 6 sequences \<open>[1,2,3]\<close>, \<open>[2,1,3]\<close>,
  \<open>[3,1,2]\<close>, \<open>[1,3,2]\<close>, \<open>[2,3,1]\<close>, \<open>[3,2,1]\<close>.

  The call returns; its result has no duplicates, holds exactly the lists with the
  elements of the array, and has \<open>n!\<close> entries. For more than 8 elements it is the result of
  \<open>getPermutationsLarger\<close>.
\<close>

theorem getPermutations_all_orderings:
  assumes "distinct array"
  shows "(\<exists>result final. getPermutations array = Some (result, final) \<and> distinct result
           \<and> set result = {p. mset p = mset array} \<and> length result = fact (length array))
     \<and> (8 < length array \<longrightarrow>
           getPermutations array = map_option (\<lambda>result. (result, array)) (getPermutationsLarger array))
     \<and> map_option (set \<circ> fst) (getPermutations [1, 2, 3 :: int])
           = Some {[1, 2, 3], [2, 1, 3], [3, 1, 2], [1, 3, 2], [2, 3, 1], [3, 2, 1]}"
proof (intro conjI)
  show "\<exists>result final. getPermutations array = Some (result, final) \<and> distinct result
           \<and> set result = {p. mset p = mset array} \<and> length result = fact (length array)"
    using assms by (rule getPermutations_perms)
  show "8 < length array \<longrightarrow>
           getPermutations array = map_option (\<lambda>result. (result, array)) (getPermutationsLarger array)"
    by (subst getPermutations.simps) simp
  show "map_option (set \<circ> fst) (getPermutations [1, 2, 3 :: int])
           = Some {[1, 2, 3], [2, 1, 3], [3, 1, 2], [1, 3, 2], [2, 3, 1], [3, 2, 1]}"
    unfolding getPermutations_example by simp
qed

theorem getPermutations_all_orderings_witness:
  "distinct [1, 2 :: int]
   \<and> getPermutations [1, 2 :: int] = Some ([[1, 2], [2, 1]], [2, 1])
   \<and> (\<exists>result final. getPermutations [1, 2 :: int] = Some (result, final) \<and> distinct result
           \<and> set result = {p. mset p = mset [1, 2]} \<and> length result = fact (length [1, 2 :: int]))"
proof -
  have d: "distinct [1, 2 :: int]" by simp
  have e: "getPermutations [1, 2 :: int] = Some ([[1, 2], [2, 1]], [2, 1])" by code_simp
  from getPermutations_all_orderings [OF d] d e show ?thesis by blast
qed

text \<open>
  Claim C2: every function of the utility library is free of side effects: after a call
  the argument arrays, and the arrays or pairs nested in them, are unchanged; in
  particular \<open>getPermutations\<close> leaves its input array in its original order, and
  \<open>mergeRanges\<close> leaves the interval pairs of its input array unmodified.

  \<open>getPermutations([1, 2, 3])\<close> leaves its argument as \<open>[3, 2, 1]\<close>: the exchanges of Heap's
  algorithm are made in the argument itself. \<open>mergeRanges([[1, 3], [2, 6]])\<close>, with the two
  pairs at the references 0 and 1 of the store, returns the one reference 0, and the pair
  there, the first pair of the argument, has become \<open>[1, 6]\<close>.
\<close>

theorem arguments_are_modified:
  "map_option snd (getPermutations [1, 2, 3 :: int]) = Some [3, 2, 1]
   \<and> mergeRanges_store [0, 1] [(1, 3), (2, 6)] = ([0], [(1, 6), (2, 6)])"
  unfolding getPermutations_example by (simp add: mergeRanges_store_def js_add_exact)

end
